theory Spec2Isabelle
  imports Main "HOL-Library.Word" "HOL-Library.Signed_Division"
begin

unbundle bit_operations_syntax

section \<open>PixelCube: non-blocking four-face LED animation with a motion-triggered ghost blink\<close>

text \<open>
  A shallow embedding of the non-blocking sketch \<^verbatim>\<open>PixelCube.ino\<close>. The sketch keeps its
  state in globals; here they are the fields of one record that every operation takes and
  returns. \<^verbatim>\<open>uint8_t\<close> and \<^verbatim>\<open>uint32_t\<close> are \<open>8 word\<close> and \<open>32 word\<close>;
  the \<^verbatim>\<open>int\<close> values of the presence detection (the ADC reading and the thresholds) are
  \<open>int\<close>, with C's truncating division written \<open>sdiv\<close>. On the AVR target a C
  \<^verbatim>\<open>int\<close> has 16 bits, so these values lie between -32768 and 32767; the model has
  no wrap-around for them and stands for the code on that range only.
\<close>

subsection \<open>Configuration\<close>

definition FACES :: nat where
  "FACES = 4"

definition NUM_LEDS_PER_FACE :: nat where
  "NUM_LEDS_PER_FACE = 256"

definition BODY_PERIOD_MS :: "32 word" where
  "BODY_PERIOD_MS = 100"

definition BODY_REPS_PER_PAIR :: nat where
  "BODY_REPS_PER_PAIR = 5"

definition BLINK_PERIOD_MS :: "32 word" where
  "BLINK_PERIOD_MS = 100"

definition BLINK_STEPS_TOTAL :: nat where
  "BLINK_STEPS_TOTAL = 18"

definition BLINK_DURATION_MS :: "32 word" where
  "BLINK_DURATION_MS = 3000"

definition MOTION_TH :: int where
  "MOTION_TH = 100"

definition COLOR_ROTATE_IDLE_MS :: "32 word" where
  "COLOR_ROTATE_IDLE_MS = 30000"

subsection \<open>Colors, faces and the shared buffer\<close>

text \<open>
  \<^verbatim>\<open>CRGB\<close> is FastLED's pixel: three 8-bit channels. The named colors are the library's
  HTML color codes (\<^verbatim>\<open>CRGB::Orange\<close> is \<^verbatim>\<open>0xFFA500\<close>).
\<close>

datatype CRGB = CRGB (red: "8 word") (green: "8 word") (blue: "8 word")

definition Black :: CRGB where "Black = CRGB 0 0 0"
definition Red :: CRGB where "Red = CRGB 255 0 0"
definition Magenta :: CRGB where "Magenta = CRGB 255 0 255"
definition Orange :: CRGB where "Orange = CRGB 255 165 0"
definition Cyan :: CRGB where "Cyan = CRGB 0 255 255"
definition Blue :: CRGB where "Blue = CRGB 0 0 255"
definition White :: CRGB where "White = CRGB 255 255 255"

datatype Face = FRONT | RIGHT | BACK | LEFT

text \<open>The enumerators' values, used to index \<^verbatim>\<open>bodyColors\<close> and \<^verbatim>\<open>ctrl\<close>.\<close>

fun face_index :: "Face \<Rightarrow> nat" where
  "face_index FRONT = 0"
| "face_index RIGHT = 1"
| "face_index BACK = 2"
| "face_index LEFT = 3"

text \<open>
  The globals of the sketch. \<open>leds\<close> is the single buffer of 256 pixels; \<open>shown\<close> records
  every \<^verbatim>\<open>showOn(ctrl[f])\<close> in program order as the face and the buffer content pushed to
  it. \<open>body_*\<close> are the fields of \<^verbatim>\<open>body\<close>, \<open>blink_*\<close> those of \<^verbatim>\<open>blink\<close>, and
  \<open>lastStep\<close> is the function-local static of \<^verbatim>\<open>loop\<close>.
\<close>

record State =
  leds :: "CRGB list"
  shown :: "(Face \<times> CRGB list) list"
  bodyColors :: "CRGB list"
  nextColorRotateAt :: "32 word"
  body_pair :: "8 word"
  body_stepInPair :: "8 word"
  body_repsInPair :: "8 word"
  body_nextAt :: "32 word"
  blink_active :: bool
  blink_step :: "8 word"
  blink_nextAt :: "32 word"
  blink_stopAt :: "32 word"
  presence :: bool
  lastStep :: "8 word"

subsection \<open>The painter (namespace fx)\<close>

text \<open>\<^verbatim>\<open>fill_solid(leds, n, c)\<close> writes \<open>c\<close> to the first \<open>n\<close> pixels.\<close>

definition fill_solid :: "CRGB list \<Rightarrow> nat \<Rightarrow> CRGB \<Rightarrow> CRGB list" where
  "fill_solid buf n c = replicate n c @ drop n buf"

text \<open>The loop of \<^verbatim>\<open>colorList\<close>: each index below 256 is painted, the others are skipped.\<close>

fun colorList :: "16 word list \<Rightarrow> CRGB \<Rightarrow> CRGB list \<Rightarrow> CRGB list" where
  "colorList [] c buf = buf"
| "colorList (k # ks) c buf =
     colorList ks c (if unat k < NUM_LEDS_PER_FACE then buf[unat k := c] else buf)"

definition drawFrame ::
  "16 word list \<Rightarrow> CRGB \<Rightarrow> 16 word list \<Rightarrow> CRGB \<Rightarrow> 16 word list \<Rightarrow> CRGB \<Rightarrow> CRGB list \<Rightarrow> CRGB list"
where
  "drawFrame A cA B cB C cC buf =
     colorList C cC (colorList B cB (colorList A cA (fill_solid buf NUM_LEDS_PER_FACE Black)))"

definition showOn :: "Face \<Rightarrow> State \<Rightarrow> State" where
  "showOn f s = s\<lparr>shown := shown s @ [(f, leds s)]\<rparr>"

subsection \<open>Index tables\<close>

definition eye_white_1 :: "16 word list" where
  "eye_white_1 = [35, 51, 55, 54, 64, 65, 66, 67, 68, 84, 83, 82, 125, 145, 144, 141, 154,
     155, 156, 157, 158, 174, 173, 172]"

definition eye_white_2 :: "16 word list" where
  "eye_white_2 = [65, 66, 67, 81, 82, 83, 84, 85, 94, 95, 98, 114, 155, 156, 157, 171, 172,
     173, 174, 175, 184, 185, 188, 204]"

definition eyes_1 :: "16 word list" where
  "eyes_1 = [36, 53, 126, 143, 37, 52, 127, 142]"

definition eyes_2 :: "16 word list" where
  "eyes_2 = [96, 113, 186, 203, 97, 112, 187, 202]"

definition body_1 :: "16 word list" where
  "body_1 = [15, 16, 17, 18, 19, 20, 21, 22, 34, 38, 39, 40, 41, 42, 43, 47, 48, 49, 50, 56,
     62, 63, 69, 70, 71, 72, 73, 75, 76, 77, 78, 79, 80, 81, 85, 86, 87, 91, 92, 93, 94, 95,
     96, 97, 98, 99, 100, 101, 102, 103, 104, 107, 108, 109, 110, 111, 112, 113, 114, 115,
     116, 117, 118, 121, 122, 123, 124, 128, 129, 130, 131, 132, 135, 136, 137, 138, 139,
     140, 146, 147, 148, 152, 153, 159, 160, 161, 162, 163, 164, 166, 167, 168, 169, 170,
     171, 175, 176, 177, 183, 184, 185, 186, 187, 188, 189, 190, 191, 192, 196, 197, 198,
     199, 200, 201, 202, 203, 204, 205, 217, 218, 219, 220, 221, 222, 223, 224]"

definition body_2 :: "16 word list" where
  "body_2 = [16, 17, 18, 19, 20, 21, 22, 34, 38, 39, 40, 41, 42, 43, 44, 45, 46, 47, 48, 49,
     50, 56, 62, 63, 69, 70, 71, 72, 73, 77, 78, 79, 80, 81, 85, 86, 87, 91, 92, 93, 94, 95,
     96, 97, 98, 99, 100, 101, 102, 103, 105, 106, 107, 108, 109, 110, 111, 112, 113, 114,
     115, 116, 117, 118, 121, 122, 123, 124, 128, 129, 130, 131, 132, 133, 134, 136, 137,
     138, 139, 140, 146, 147, 148, 152, 153, 159, 160, 161, 162, 166, 167, 168, 169, 170,
     171, 175, 176, 177, 183, 184, 185, 186, 187, 188, 189, 190, 191, 192, 193, 194, 195,
     196, 197, 198, 199, 200, 201, 202, 203, 204, 205, 217, 218, 219, 220, 221, 222, 223]"

definition body_3 :: "16 word list" where
  "body_3 = [15, 16, 17, 18, 19, 20, 21, 22, 34, 35, 36, 37, 38, 39, 40, 41, 42, 43, 47, 48,
     49, 50, 51, 52, 53, 54, 55, 56, 62, 63, 64, 68, 69, 70, 71, 72, 73, 75, 76, 77, 78, 79,
     80, 86, 87, 91, 92, 93, 99, 100, 101, 102, 103, 104, 107, 108, 109, 110, 111, 115, 116,
     117, 118, 121, 122, 123, 124, 125, 126, 127, 128, 129, 130, 131, 132, 135, 136, 137,
     138, 139, 140, 141, 142, 143, 144, 145, 146, 147, 148, 152, 153, 154, 158, 159, 160,
     161, 162, 163, 164, 166, 167, 168, 169, 170, 176, 177, 183, 189, 190, 191, 192, 196,
     197, 198, 199, 200, 201, 205, 217, 218, 219, 220, 221, 222, 223, 224]"

definition body_4 :: "16 word list" where
  "body_4 = [16, 17, 18, 19, 20, 21, 22, 34, 35, 36, 37, 38, 39, 40, 41, 42, 43, 44, 45, 46,
     47, 48, 49, 50, 51, 52, 53, 54, 55, 56, 62, 63, 64, 68, 69, 70, 71, 72, 73, 77, 78, 79,
     80, 86, 87, 91, 92, 93, 99, 100, 101, 102, 103, 105, 106, 107, 108, 109, 110, 111, 115,
     116, 117, 118, 121, 122, 123, 124, 125, 126, 127, 128, 129, 130, 131, 132, 133, 134,
     136, 137, 138, 139, 140, 141, 142, 143, 144, 145, 146, 147, 148, 152, 153, 154, 158,
     159, 160, 161, 162, 166, 167, 168, 169, 170, 176, 177, 183, 189, 190, 191, 192, 193,
     194, 195, 196, 197, 198, 199, 200, 201, 205, 217, 218, 219, 220, 221, 222, 223]"

definition dead_fantom_1 :: "16 word list" where
  "dead_fantom_1 = [15, 16, 17, 18, 19, 20, 21, 22, 34, 35, 36, 37, 38, 39, 40, 42, 43, 47,
     48, 50, 51, 52, 53, 54, 55, 56, 62, 63, 64, 65, 66, 67, 68, 69, 71, 72, 73, 75, 76, 77,
     79, 80, 81, 84, 85, 86, 87, 91, 92, 93, 94, 95, 98, 99, 100, 103, 104, 107, 108, 110,
     111, 112, 113, 114, 115, 116, 117, 118, 121, 122, 123, 124, 125, 126, 127, 128, 129,
     131, 132, 135, 136, 137, 139, 140, 141, 144, 145, 146, 147, 148, 152, 153, 154, 155,
     158, 159, 160, 162, 163, 164, 166, 167, 168, 170, 171, 172, 173, 174, 175, 176, 177,
     184, 185, 186, 187, 188, 189, 190, 191, 192, 196, 197, 199, 200, 201, 202, 203, 204,
     205, 217, 218, 219, 220, 221, 222, 223, 224]"

definition dead_fantom_2 :: "16 word list" where
  "dead_fantom_2 = [16, 17, 18, 19, 20, 21, 22, 34, 35, 36, 37, 38, 39, 40, 42, 43, 44, 45,
     46, 47, 48, 50, 51, 52, 53, 54, 55, 56, 62, 63, 64, 65, 66, 67, 68, 69, 71, 72, 73, 77,
     79, 80, 81, 84, 85, 86, 87, 91, 92, 93, 94, 95, 98, 99, 100, 102, 103, 105, 106, 108,
     110, 111, 112, 113, 114, 115, 116, 117, 118, 121, 122, 123, 124, 125, 126, 127, 128,
     129, 131, 132, 133, 134, 136, 137, 139, 140, 141, 144, 145, 146, 147, 148, 152, 153,
     154, 155, 158, 159, 160, 162, 166, 167, 168, 170, 171, 172, 173, 174, 175, 176, 177,
     184, 185, 186, 187, 188, 189, 190, 191, 192, 193, 194, 195, 196, 197, 199, 200, 201,
     202, 203, 204, 205, 217, 218, 219, 220, 221, 222, 223]"

definition fantom_eyes_mouth :: "16 word list" where
  "fantom_eyes_mouth = [41, 49, 70, 78, 82, 83, 96, 97, 101, 109, 130, 138, 142, 143, 156,
     157, 161, 169, 190, 198]"

definition dummy :: "16 word list" where
  "dummy = [0]"
subsection \<open>Utilities\<close>

text \<open>The \<^verbatim>\<open>for (i = FACES - 1; i > 0; --i)\<close> loop of \<^verbatim>\<open>rotateColors\<close>, from \<open>i\<close> down.\<close>

fun rotate_shift :: "nat \<Rightarrow> CRGB list \<Rightarrow> CRGB list" where
  "rotate_shift 0 cs = cs"
| "rotate_shift (Suc j) cs = rotate_shift j (cs[Suc j := cs ! j])"

definition rotateColors :: "CRGB list \<Rightarrow> CRGB list" where
  "rotateColors cs =
     (let tmp = cs ! (FACES - 1);
          cs' = rotate_shift (FACES - 1) cs
      in cs'[0 := tmp])"

text \<open>
  The frame that \<^verbatim>\<open>renderBodyFrameForFace\<close> draws: \<open>globalFrameIndex\<close> 0 to 3 selects
  \<^verbatim>\<open>body_1\<close> to \<^verbatim>\<open>body_4\<close>, the last one being the \<^verbatim>\<open>default\<close> case of the switch.
\<close>

definition bodyFrame :: "CRGB \<Rightarrow> 8 word \<Rightarrow> CRGB list \<Rightarrow> CRGB list" where
  "bodyFrame col globalFrameIndex buf =
     (if globalFrameIndex = 0 then drawFrame body_1 col eye_white_1 White eyes_1 Blue buf
      else if globalFrameIndex = 1 then drawFrame body_2 col eye_white_1 White eyes_1 Blue buf
      else if globalFrameIndex = 2 then drawFrame body_3 col eye_white_2 White eyes_2 Blue buf
      else drawFrame body_4 col eye_white_2 White eyes_2 Blue buf)"

definition renderBodyFrameForFace :: "Face \<Rightarrow> 8 word \<Rightarrow> State \<Rightarrow> State" where
  "renderBodyFrameForFace f globalFrameIndex s =
     showOn f (s\<lparr>leds := bodyFrame (bodyColors s ! face_index f) globalFrameIndex (leds s)\<rparr>)"

text \<open>The two ghost frames of \<^verbatim>\<open>renderBlinkFrameAllFaces\<close>.\<close>

definition ghostFrame :: "bool \<Rightarrow> CRGB list \<Rightarrow> CRGB list" where
  "ghostFrame useAlt buf =
     (if \<not> useAlt then drawFrame dead_fantom_1 Blue fantom_eyes_mouth Red dummy Black buf
      else drawFrame dead_fantom_2 White fantom_eyes_mouth Red dummy Black buf)"

definition renderBlinkFrameAllFaces :: "bool \<Rightarrow> State \<Rightarrow> State" where
  "renderBlinkFrameAllFaces useAlt s =
     showOn BACK (showOn LEFT (showOn RIGHT (showOn FRONT
       (s\<lparr>leds := ghostFrame useAlt (leds s)\<rparr>))))"

subsection \<open>Setup\<close>

text \<open>
  The globals after \<^verbatim>\<open>setup()\<close> has run at clock value \<open>now\<close>: the initialisers of the
  declarations, the buffer cleared, and the two deadlines armed.
\<close>

definition sketch_setup :: "32 word \<Rightarrow> State" where
  "sketch_setup now =
     \<lparr>leds = replicate NUM_LEDS_PER_FACE Black,
      shown = [],
      bodyColors = [Red, Magenta, Orange, Cyan],
      nextColorRotateAt = now + COLOR_ROTATE_IDLE_MS,
      body_pair = 0, body_stepInPair = 0, body_repsInPair = 0,
      body_nextAt = now + BODY_PERIOD_MS,
      blink_active = False, blink_step = 0, blink_nextAt = 0, blink_stopAt = 0,
      presence = False,
      lastStep = 1\<rparr>"

subsection \<open>The loop\<close>

text \<open>The rollover-safe test \<^verbatim>\<open>(int32_t)(now - deadline) >= 0\<close>.\<close>

definition due :: "32 word \<Rightarrow> 32 word \<Rightarrow> bool" where
  "due now deadline \<longleftrightarrow> 0 \<le> sint (now - deadline)"

text \<open>
  The thresholds derived from the ON threshold. \<open>th_on\<close> is the value that the
  \<^verbatim>\<open>const int TH_ON\<close> holds, a 16-bit \<^verbatim>\<open>int\<close>: for \<open>th_on\<close> from -32764 to 32767 the
  division and the subtraction stay inside that type and the definitions compute what the sketch
  computes; outside that range they say nothing about it.
\<close>

definition HYST :: "int \<Rightarrow> int" where
  "HYST th_on = max 4 (th_on sdiv 3)"

definition TH_OFF :: "int \<Rightarrow> int" where
  "TH_OFF th_on = max 0 (th_on - HYST th_on)"

text \<open>Presence detection with hysteresis: the new level from the old one and the reading.\<close>

definition detectPresence :: "int \<Rightarrow> bool \<Rightarrow> int \<Rightarrow> bool" where
  "detectPresence th_on p motionVal =
     (if \<not> p \<and> motionVal \<ge> th_on then True
      else if p \<and> motionVal \<le> TH_OFF th_on then False
      else p)"

text \<open>
  The edge test \<^verbatim>\<open>!wasPresent && presence\<close> of \<^verbatim>\<open>loop\<close>, and its mirror image for the
  branch commented "falling level (left presence)", which the sketch takes but never tests.
\<close>

definition risingEdge :: "bool \<Rightarrow> bool \<Rightarrow> bool" where
  "risingEdge wasPresent p \<longleftrightarrow> \<not> wasPresent \<and> p"

definition fallingEdge :: "bool \<Rightarrow> bool \<Rightarrow> bool" where
  "fallingEdge wasPresent p \<longleftrightarrow> wasPresent \<and> \<not> p"

text \<open>On a rising edge: rotate the colors once and start a 3 s blink.\<close>

definition startBlink :: "32 word \<Rightarrow> State \<Rightarrow> State" where
  "startBlink now s =
     s\<lparr>bodyColors := rotateColors (bodyColors s),
       blink_active := True,
       blink_step := 0,
       blink_nextAt := now,
       blink_stopAt := now + BLINK_DURATION_MS,
       nextColorRotateAt := now + COLOR_ROTATE_IDLE_MS\<rparr>"

text \<open>One due ghost frame: render it, advance the step and wrap, rearm.\<close>

definition blinkFrame :: "32 word \<Rightarrow> State \<Rightarrow> State" where
  "blinkFrame now s =
     (let useAlt = (blink_step s AND 1 \<noteq> 0);
          s' = renderBlinkFrameAllFaces useAlt s
      in s'\<lparr>blink_step := of_nat ((unat (blink_step s') + 1) mod BLINK_STEPS_TOTAL),
            blink_nextAt := now + BLINK_PERIOD_MS\<rparr>)"

text \<open>Idle color rotation.\<close>

definition idleRotate :: "32 word \<Rightarrow> State \<Rightarrow> State" where
  "idleRotate now s =
     (if due now (nextColorRotateAt s)
      then s\<lparr>bodyColors := rotateColors (bodyColors s),
             nextColorRotateAt := now + COLOR_ROTATE_IDLE_MS\<rparr>
      else s)"

text \<open>One due step of the body animation (the body of the last \<^verbatim>\<open>if\<close> of \<^verbatim>\<open>loop\<close>).\<close>

definition bodyStep :: "32 word \<Rightarrow> State \<Rightarrow> State" where
  "bodyStep now s =
     (let s1 = s\<lparr>body_stepInPair := body_stepInPair s XOR 1\<rparr>;
          s2 = (if body_stepInPair s1 = 0 \<and> lastStep s1 = 1
                then (let s' = s1\<lparr>body_repsInPair := body_repsInPair s1 + 1\<rparr>
                      in if unat (body_repsInPair s') \<ge> BODY_REPS_PER_PAIR
                         then s'\<lparr>body_repsInPair := 0, body_pair := body_pair s' XOR 1\<rparr>
                         else s')
                else s1);
          s3 = s2\<lparr>lastStep := body_stepInPair s2\<rparr>;
          globalFrameIndex =
            (if body_pair s3 = 0 then (if body_stepInPair s3 = 0 then 0 else 1)
             else (if body_stepInPair s3 = 0 then 2 else 3));
          s4 = renderBodyFrameForFace FRONT globalFrameIndex
                 (renderBodyFrameForFace BACK globalFrameIndex
                   (renderBodyFrameForFace LEFT globalFrameIndex
                     (renderBodyFrameForFace RIGHT globalFrameIndex s3)))
      in s4\<lparr>body_nextAt := now + BODY_PERIOD_MS\<rparr>)"

definition bodyAnimation :: "32 word \<Rightarrow> State \<Rightarrow> State" where
  "bodyAnimation now s = (if due now (body_nextAt s) then bodyStep now s else s)"

text \<open>
  One call of \<^verbatim>\<open>loop()\<close> with \<^verbatim>\<open>millis()\<close> returning \<open>now\<close> and \<^verbatim>\<open>analogRead\<close>
  returning \<open>motionVal\<close>. The early \<^verbatim>\<open>return\<close> inside the blink window is the branch
  that yields \<open>s3\<close>.
\<close>

definition loop :: "32 word \<Rightarrow> int \<Rightarrow> State \<Rightarrow> State" where
  "loop now motionVal s =
     (let wasPresent = presence s;
          s1 = s\<lparr>presence := detectPresence MOTION_TH (presence s) motionVal\<rparr>;
          s2 = (if risingEdge wasPresent (presence s1) then startBlink now s1 else s1)
      in if blink_active s2
         then (let s3 = (if due now (blink_nextAt s2) then blinkFrame now s2 else s2)
               in if \<not> due now (blink_stopAt s3) then s3
                  else bodyAnimation now (idleRotate now (s3\<lparr>blink_active := False\<rparr>)))
         else bodyAnimation now (idleRotate now s2))"

subsection \<open>Runs of the loop\<close>

text \<open>The Arduino core calls \<^verbatim>\<open>loop()\<close> again and again; a run is a list of its inputs.\<close>

fun run :: "State \<Rightarrow> (32 word \<times> int) list \<Rightarrow> State" where
  "run s [] = s"
| "run s ((now, motionVal) # ins) = run (loop now motionVal s) ins"

text \<open>The inputs of a run that is called once per millisecond, the first call at clock \<open>t\<close>.\<close>

fun everyMs :: "nat \<Rightarrow> int list \<Rightarrow> (32 word \<times> int) list" where
  "everyMs t [] = []"
| "everyMs t (v # vs) = (of_nat t, v) # everyMs (Suc t) vs"

text \<open>The presence level after each reading of a sequence, from level \<open>p\<close>.\<close>

fun presences :: "int \<Rightarrow> bool \<Rightarrow> int list \<Rightarrow> bool list" where
  "presences th_on p [] = []"
| "presences th_on p (v # vs) =
     detectPresence th_on p v # presences th_on (detectPresence th_on p v) vs"

text \<open>No reading of the sequence gives a rising edge, from level \<open>p\<close>.\<close>

fun noRisingEdge :: "bool \<Rightarrow> int list \<Rightarrow> bool" where
  "noRisingEdge p [] = True"
| "noRisingEdge p (v # vs) =
     (\<not> risingEdge p (detectPresence MOTION_TH p v) \<and>
      noRisingEdge (detectPresence MOTION_TH p v) vs)"

text \<open>The number of calls of a run that find the body deadline reached.\<close>

fun bodyDueTicks :: "State \<Rightarrow> (32 word \<times> int) list \<Rightarrow> nat" where
  "bodyDueTicks s [] = 0"
| "bodyDueTicks s ((now, motionVal) # ins) =
     (if due now (body_nextAt s) then 1 else 0) + bodyDueTicks (loop now motionVal s) ins"

text \<open>
  The publishes of \<open>n\<close> successive ghost frames drawn over a buffer of the size of \<open>buf\<close>,
  the first one with step 0: frame \<open>j\<close> is the alternate one when \<open>j\<close> is odd.
\<close>

fun alertFrames :: "CRGB list \<Rightarrow> nat \<Rightarrow> (Face \<times> CRGB list) list" where
  "alertFrames buf 0 = []"
| "alertFrames buf (Suc j) =
     alertFrames buf j @ map (\<lambda>f. (f, ghostFrame (odd j) buf)) [FRONT, RIGHT, LEFT, BACK]"

text \<open>
  The blink state \<open>t\<close> ms after an activation at clock 0 that found \<open>pre\<close> published and
  the buffer \<open>buf\<close>, for \<open>t\<close> below the duration.
\<close>

definition alertInv :: "(Face \<times> CRGB list) list \<Rightarrow> CRGB list \<Rightarrow> nat \<Rightarrow> State \<Rightarrow> bool" where
  "alertInv pre buf t s \<longleftrightarrow>
     blink_active s \<and> blink_stopAt s = 3000 \<and>
     blink_nextAt s = of_nat (100 * Suc (t div 100)) \<and>
     blink_step s = of_nat (Suc (t div 100) mod 18) \<and>
     shown s = pre @ alertFrames buf (Suc (t div 100)) \<and>
     length (leds s) = NUM_LEDS_PER_FACE \<and> length buf = NUM_LEDS_PER_FACE"

text \<open>
  The body state after \<open>n\<close> steps of the body animation from pair 0, step 0 and no
  repetitions: the step toggles, a round trip is two steps, the pair flips every ten steps.
\<close>

definition bodyInv :: "nat \<Rightarrow> State \<Rightarrow> bool" where
  "bodyInv n s \<longleftrightarrow>
     body_stepInPair s = of_nat (n mod 2) \<and>
     body_repsInPair s = of_nat ((n div 2) mod 5) \<and>
     body_pair s = of_nat ((n div 10) mod 2) \<and>
     (0 < n \<longrightarrow> lastStep s = body_stepInPair s)"

section \<open>Auxiliary facts\<close>

subsection \<open>Thresholds and the clock\<close>

lemma TH_OFF_100: "TH_OFF 100 = 67"
  by (simp add: TH_OFF_def HYST_def signed_divide_int_def)

lemma TH_OFF_MOTION_TH: "TH_OFF MOTION_TH = 67"
  by (simp add: MOTION_TH_def TH_OFF_100)

lemma sint_diff_small:
  fixes T D :: int
  assumes "\<bar>T - D\<bar> < 2 ^ 31"
  shows "sint (word_of_int T - word_of_int D :: 32 word) = T - D"
proof -
  have lo: "- (2 ^ 31) \<le> T - D" and hi: "T - D < 2 ^ 31"
    using assms by auto
  have "sint (word_of_int (T - D) :: 32 word) = signed_take_bit 31 (T - D)"
    by (simp only: signed_of_int) simp
  also have "\<dots> = T - D"
    using lo hi by (rule signed_take_bit_int_eq_self)
  finally show ?thesis by simp
qed

lemma due_of_nat:
  assumes a: "a < 2 ^ 31" and b: "b < 2 ^ 31"
  shows "due (of_nat a) (of_nat b) \<longleftrightarrow> b \<le> a"
proof -
  have "\<bar>int a - int b\<bar> < 2 ^ 31" using a b by auto
  from sint_diff_small[OF this] show ?thesis by (simp add: due_def)
qed

lemma due_self: "due now now"
  by (simp add: due_def)

lemma not_due_duration: "\<not> due now (now + BLINK_DURATION_MS)"
  by (simp add: due_def BLINK_DURATION_MS_def)

subsection \<open>The painter\<close>

lemma length_colorList: "length (colorList ks c buf) = length buf"
  by (induction ks arbitrary: buf) simp_all

lemma nth_colorList:
  "i < length buf \<Longrightarrow> length buf \<le> NUM_LEDS_PER_FACE \<Longrightarrow>
   colorList ks c buf ! i = (if i \<in> unat ` set ks then c else buf ! i)"
proof (induction ks arbitrary: buf)
  case Nil
  then show ?case by simp
next
  case (Cons k ks)
  then show ?case by (auto simp: nth_list_update)
qed

lemma colorList_skip:
  "\<forall>k\<in>set ks. NUM_LEDS_PER_FACE \<le> unat k \<Longrightarrow> colorList ks c buf = buf"
  by (induction ks arbitrary: buf) simp_all

lemma ghostFrame_buf:
  "length buf = NUM_LEDS_PER_FACE \<Longrightarrow> length buf' = NUM_LEDS_PER_FACE \<Longrightarrow>
   ghostFrame u buf = ghostFrame u buf'"
  by (simp add: ghostFrame_def drawFrame_def fill_solid_def)

lemma length_ghostFrame:
  "length buf = NUM_LEDS_PER_FACE \<Longrightarrow> length (ghostFrame u buf) = NUM_LEDS_PER_FACE"
  by (simp add: ghostFrame_def drawFrame_def fill_solid_def length_colorList)

lemma nth_drawFrame:
  "i < NUM_LEDS_PER_FACE \<Longrightarrow> length buf = NUM_LEDS_PER_FACE \<Longrightarrow>
   drawFrame A cA B cB C cC buf ! i =
      (if i \<in> unat ` set C then cC
       else if i \<in> unat ` set B then cB
       else if i \<in> unat ` set A then cA
       else Black)"
  by (simp add: drawFrame_def length_colorList nth_colorList fill_solid_def)

lemma ghostFrames_differ:
  assumes "length buf = NUM_LEDS_PER_FACE"
  shows "ghostFrame False buf ! 15 = Blue" and "ghostFrame True buf ! 15 = Black"
    and "ghostFrame False buf \<noteq> ghostFrame True buf"
proof -
  have i: "15 < NUM_LEDS_PER_FACE" by (simp add: NUM_LEDS_PER_FACE_def)
  show a: "ghostFrame False buf ! 15 = Blue"
    by (simp add: ghostFrame_def nth_drawFrame[OF i assms])
       (simp add: dead_fantom_1_def fantom_eyes_mouth_def dummy_def)
  show b: "ghostFrame True buf ! 15 = Black"
    by (simp add: ghostFrame_def nth_drawFrame[OF i assms])
       (simp add: dead_fantom_2_def fantom_eyes_mouth_def dummy_def)
  have "Blue \<noteq> Black" by (simp add: Blue_def Black_def)
  with a b show "ghostFrame False buf \<noteq> ghostFrame True buf" by metis
qed

subsection \<open>Presence sequences\<close>

lemma length_presences: "length (presences th p vs) = length vs"
  by (induction vs arbitrary: p) simp_all

lemma presences_step:
  "n < length vs \<Longrightarrow>
   presences th p vs ! n = detectPresence th ((p # presences th p vs) ! n) (vs ! n)"
proof (induction vs arbitrary: p n)
  case Nil
  then show ?case by simp
next
  case (Cons v vs)
  then show ?case by (cases n) simp_all
qed

lemma fall_between:
  "i \<le> j \<Longrightarrow> j \<le> length vs \<Longrightarrow>
   (p # presences th p vs) ! i \<Longrightarrow> \<not> (p # presences th p vs) ! j \<Longrightarrow>
   \<exists>k. i \<le> k \<and> k < j \<and> (p # presences th p vs) ! k \<and> \<not> presences th p vs ! k"
proof (induction j)
  case 0
  then show ?case by simp
next
  case (Suc j)
  show ?case
  proof (cases "i = Suc j")
    case True
    with Suc.prems show ?thesis by simp
  next
    case False
    with Suc.prems have ij: "i \<le> j" by simp
    show ?thesis
    proof (cases "(p # presences th p vs) ! j")
      case True
      with Suc.prems ij show ?thesis by (intro exI[of _ j]) simp
    next
      case False
      with Suc.prems ij Suc.IH obtain k where "i \<le> k" "k < j"
        "(p # presences th p vs) ! k" "\<not> presences th p vs ! k"
        by auto
      then show ?thesis by (intro exI[of _ k]) simp
    qed
  qed
qed

lemma noRisingEdge_single: "noRisingEdge p [v] = (\<not> (\<not> p \<and> MOTION_TH \<le> v))"
  by (auto simp: detectPresence_def risingEdge_def)

lemma noRisingEdge_Cons:
  "noRisingEdge p (v # vs) =
     (\<not> (\<not> p \<and> MOTION_TH \<le> v) \<and> noRisingEdge (detectPresence MOTION_TH p v) vs)"
  by (auto simp: detectPresence_def risingEdge_def)

subsection \<open>The operations as record updates\<close>

lemma renderBlinkFrameAllFaces_eq:
  "renderBlinkFrameAllFaces u s =
     s\<lparr>leds := ghostFrame u (leds s),
       shown := shown s @ map (\<lambda>f. (f, ghostFrame u (leds s))) [FRONT, RIGHT, LEFT, BACK]\<rparr>"
  by (simp add: renderBlinkFrameAllFaces_def showOn_def)

lemma renderBodyFrameForFace_eq:
  "renderBodyFrameForFace f i s =
     s\<lparr>leds := bodyFrame (bodyColors s ! face_index f) i (leds s),
       shown := shown s @ [(f, bodyFrame (bodyColors s ! face_index f) i (leds s))]\<rparr>"
  by (simp add: renderBodyFrameForFace_def showOn_def)

lemma blinkFrame_eq:
  "blinkFrame now s =
     s\<lparr>leds := ghostFrame (blink_step s AND 1 \<noteq> 0) (leds s),
       shown := shown s @
         map (\<lambda>f. (f, ghostFrame (blink_step s AND 1 \<noteq> 0) (leds s))) [FRONT, RIGHT, LEFT, BACK],
       blink_step := of_nat ((unat (blink_step s) + 1) mod BLINK_STEPS_TOTAL),
       blink_nextAt := now + BLINK_PERIOD_MS\<rparr>"
  by (simp add: blinkFrame_def Let_def renderBlinkFrameAllFaces_eq)

lemma presence_idleRotate: "presence (idleRotate now s) = presence s"
  by (simp add: idleRotate_def)

lemma presence_bodyStep: "presence (bodyStep now s) = presence s"
  by (simp add: bodyStep_def Let_def renderBodyFrameForFace_eq)

lemma presence_bodyAnimation: "presence (bodyAnimation now s) = presence s"
  by (simp add: bodyAnimation_def presence_bodyStep)

lemma presence_loop: "presence (loop now v s) = detectPresence MOTION_TH (presence s) v"
  by (simp add: loop_def Let_def presence_bodyAnimation presence_idleRotate blinkFrame_eq
      startBlink_def)

lemma blink_fields_idleRotate:
  "blink_active (idleRotate now s) = blink_active s"
  "blink_step (idleRotate now s) = blink_step s"
  "blink_nextAt (idleRotate now s) = blink_nextAt s"
  "blink_stopAt (idleRotate now s) = blink_stopAt s"
  by (simp_all add: idleRotate_def)

lemma blink_fields_bodyStep:
  "blink_active (bodyStep now s) = blink_active s"
  "blink_step (bodyStep now s) = blink_step s"
  "blink_nextAt (bodyStep now s) = blink_nextAt s"
  "blink_stopAt (bodyStep now s) = blink_stopAt s"
  by (simp_all add: bodyStep_def Let_def renderBodyFrameForFace_eq)

lemma blink_fields_bodyAnimation:
  "blink_active (bodyAnimation now s) = blink_active s"
  "blink_step (bodyAnimation now s) = blink_step s"
  "blink_nextAt (bodyAnimation now s) = blink_nextAt s"
  "blink_stopAt (bodyAnimation now s) = blink_stopAt s"
  by (simp_all add: bodyAnimation_def blink_fields_bodyStep)

subsection \<open>The four paths through the loop\<close>

lemma loop_rising:
  "\<not> presence s \<Longrightarrow> MOTION_TH \<le> v \<Longrightarrow>
   loop now v s = blinkFrame now (startBlink now (s\<lparr>presence := True\<rparr>))"
  by (simp add: loop_def Let_def detectPresence_def risingEdge_def)
     (simp add: startBlink_def blinkFrame_eq due_self not_due_duration)

lemma loop_active:
  "blink_active s \<Longrightarrow> \<not> (\<not> presence s \<and> MOTION_TH \<le> v) \<Longrightarrow> \<not> due now (blink_stopAt s) \<Longrightarrow>
   loop now v s =
     (if due now (blink_nextAt s)
      then blinkFrame now (s\<lparr>presence := detectPresence MOTION_TH (presence s) v\<rparr>)
      else s\<lparr>presence := detectPresence MOTION_TH (presence s) v\<rparr>)"
  by (auto simp add: loop_def Let_def detectPresence_def risingEdge_def blinkFrame_eq)

lemma loop_stop:
  "blink_active s \<Longrightarrow> \<not> (\<not> presence s \<and> MOTION_TH \<le> v) \<Longrightarrow> due now (blink_stopAt s) \<Longrightarrow>
   loop now v s =
     bodyAnimation now (idleRotate now
       ((if due now (blink_nextAt s)
         then blinkFrame now (s\<lparr>presence := detectPresence MOTION_TH (presence s) v\<rparr>)
         else s\<lparr>presence := detectPresence MOTION_TH (presence s) v\<rparr>)\<lparr>blink_active := False\<rparr>))"
  by (auto simp add: loop_def Let_def detectPresence_def risingEdge_def blinkFrame_eq)

lemma loop_idle:
  "\<not> blink_active s \<Longrightarrow> \<not> (\<not> presence s \<and> MOTION_TH \<le> v) \<Longrightarrow>
   loop now v s =
     bodyAnimation now (idleRotate now (s\<lparr>presence := detectPresence MOTION_TH (presence s) v\<rparr>))"
  by (auto simp add: loop_def Let_def detectPresence_def risingEdge_def)


subsection \<open>What a call publishes\<close>

lemma shown_idleRotate: "shown (idleRotate now s) = shown s"
  by (simp add: idleRotate_def)

lemma faces_bodyStep:
  "map fst (shown (bodyStep now s)) = map fst (shown s) @ [RIGHT, LEFT, BACK, FRONT]"
  by (simp add: bodyStep_def Let_def renderBodyFrameForFace_eq)

lemma faces_bodyAnimation:
  "map fst (shown (bodyAnimation now s)) =
     map fst (shown s) @ (if due now (body_nextAt s) then [RIGHT, LEFT, BACK, FRONT] else [])"
  by (simp add: bodyAnimation_def faces_bodyStep)

lemma faces_blinkFrame:
  "map fst (shown (blinkFrame now s)) = map fst (shown s) @ [FRONT, RIGHT, LEFT, BACK]"
  by (simp add: blinkFrame_eq)

lemma faces_loop:
  "map fst (shown (loop now v s)) = map fst (shown s) \<or>
   map fst (shown (loop now v s)) = map fst (shown s) @ [FRONT, RIGHT, LEFT, BACK] \<or>
   map fst (shown (loop now v s)) = map fst (shown s) @ [RIGHT, LEFT, BACK, FRONT] \<or>
   map fst (shown (loop now v s)) =
     map fst (shown s) @ [FRONT, RIGHT, LEFT, BACK] @ [RIGHT, LEFT, BACK, FRONT]"
proof (cases "\<not> presence s \<and> MOTION_TH \<le> v")
  case True
  then have "loop now v s = blinkFrame now (startBlink now (s\<lparr>presence := True\<rparr>))"
    by (simp add: loop_rising)
  then show ?thesis by (simp add: faces_blinkFrame startBlink_def)
next
  case nr: False
  show ?thesis
  proof (cases "blink_active s")
    case act: True
    show ?thesis
    proof (cases "due now (blink_stopAt s)")
      case True
      from loop_stop[OF act nr True] show ?thesis
        by (simp add: faces_bodyAnimation shown_idleRotate faces_blinkFrame)
    next
      case False
      from loop_active[OF act nr False] show ?thesis
        by (simp add: faces_blinkFrame)
    qed
  next
    case False
    from loop_idle[OF False nr] show ?thesis
      by (simp add: faces_bodyAnimation shown_idleRotate)
  qed
qed

subsection \<open>The blink window\<close>

lemma useAlt_of_nat: "((of_nat m :: 8 word) AND 1 \<noteq> 0) = odd m"
proof -
  have "((of_nat m :: 8 word) AND 1 \<noteq> 0) = odd (of_nat m :: 8 word)"
    by (simp add: and_one_eq flip: odd_iff_mod_2_eq_one)
  then show ?thesis by simp
qed

lemma unat_step: "unat (of_nat (m mod 18) :: 8 word) = m mod 18"
proof -
  have "m mod 18 < 256" by (rule less_trans[of _ 18]) simp_all
  then show ?thesis by (simp add: unat_of_nat)
qed

lemma step_advance:
  "(of_nat ((unat (of_nat (m mod 18) :: 8 word) + 1) mod BLINK_STEPS_TOTAL) :: 8 word) =
     of_nat (Suc m mod 18)"
  by (simp only: unat_step BLINK_STEPS_TOTAL_def) (simp add: mod_Suc_eq)

lemma odd_mod_18: "odd (m mod 18) = odd (m::nat)"
  by (simp add: dvd_mod_iff)

lemma next_fire_due: "(100 * Suc (t div 100) \<le> Suc t) = (Suc t mod 100 = 0)"
proof -
  have a: "t < 100 * Suc (t div 100)"
    using div_mult_mod_eq[of t 100] mod_less_divisor[of 100 t] by simp
  show ?thesis
  proof (cases "Suc t mod 100 = 0")
    case True
    then have "Suc t div 100 = Suc (t div 100)" by (simp add: div_Suc)
    with True div_mult_mod_eq[of "Suc t" 100] show ?thesis by simp
  next
    case False
    have "Suc t \<noteq> 100 * Suc (t div 100)"
    proof
      assume "Suc t = 100 * Suc (t div 100)"
      then have "Suc t mod 100 = (100 * Suc (t div 100)) mod 100" by (rule arg_cong)
      with False show False by (simp only: mod_mult_self1_is_0)
    qed
    with a False show ?thesis by (simp only: Suc_le_eq le_less not_less[symmetric]) auto
  qed
qed

lemma length_alertFrames: "length (alertFrames buf n) = 4 * n"
  by (induction n) simp_all

lemma alertInv_tick:
  assumes inv: "alertInv pre buf t s"
    and nr: "\<not> (\<not> presence s \<and> MOTION_TH \<le> v)"
    and t: "Suc t < 3000"
  shows "alertInv pre buf (Suc t) (loop (of_nat (Suc t)) v s)"
proof -
  let ?now = "of_nat (Suc t) :: 32 word"
  let ?k = "t div 100"
  from inv have act: "blink_active s" and stop: "blink_stopAt s = of_nat 3000"
    and nxt: "blink_nextAt s = of_nat (100 * Suc ?k)"
    and stp: "blink_step s = of_nat (Suc ?k mod 18)"
    and shw: "shown s = pre @ alertFrames buf (Suc ?k)"
    and len: "length (leds s) = NUM_LEDS_PER_FACE" and lenb: "length buf = NUM_LEDS_PER_FACE"
    by (simp_all add: alertInv_def)
  have nostop: "\<not> due ?now (blink_stopAt s)"
    unfolding stop using t by (subst due_of_nat) simp_all
  have k: "100 * Suc ?k < 2 ^ 31" using t by simp
  have duen: "due ?now (blink_nextAt s) = (Suc t mod 100 = 0)"
    unfolding nxt using t k by (subst due_of_nat) (simp_all only: next_fire_due, simp_all)
  show ?thesis
  proof (cases "Suc t mod 100 = 0")
    case True
    then have d: "Suc t div 100 = Suc ?k" by (simp add: div_Suc)
    have e: "Suc t = 100 * Suc ?k"
      using True d div_mult_mod_eq[of "Suc t" 100] by simp
    have "Suc t + 100 = 100 * Suc (Suc ?k)"
      by (subst e) simp
    then have "(of_nat (Suc t + 100) :: 32 word) = of_nat (100 * Suc (Suc ?k))"
      by (rule arg_cong)
    then have now: "?now + BLINK_PERIOD_MS = of_nat (100 * Suc (Suc ?k))"
      by (simp only: BLINK_PERIOD_MS_def of_nat_add of_nat_numeral)
    have gf: "ghostFrame (odd (Suc ?k)) (leds s) = ghostFrame (odd (Suc ?k)) buf"
      using len lenb by (rule ghostFrame_buf)
    have ua: "(blink_step s AND 1 \<noteq> 0) = odd (Suc ?k)"
      unfolding stp by (simp only: useAlt_of_nat odd_mod_18)
    have eq: "loop ?now v s =
        blinkFrame ?now (s\<lparr>presence := detectPresence MOTION_TH (presence s) v\<rparr>)"
      using loop_active[OF act nr nostop] duen True by simp
    have f1: "blink_active (loop ?now v s)" and f2: "blink_stopAt (loop ?now v s) = 3000"
      and f3: "blink_nextAt (loop ?now v s) = ?now + BLINK_PERIOD_MS"
      using act stop by (simp_all add: eq blinkFrame_eq del: of_nat_Suc)
    have "blink_step (loop ?now v s) = of_nat ((unat (blink_step s) + 1) mod BLINK_STEPS_TOTAL)"
      by (simp add: eq blinkFrame_eq del: of_nat_Suc)
    then have f4: "blink_step (loop ?now v s) = of_nat (Suc (Suc ?k) mod 18)"
      by (simp only: stp step_advance)
    have "shown (loop ?now v s) =
        shown s @ map (\<lambda>f. (f, ghostFrame (blink_step s AND 1 \<noteq> 0) (leds s)))
          [FRONT, RIGHT, LEFT, BACK]"
      by (simp add: eq blinkFrame_eq del: of_nat_Suc)
    then have f5: "shown (loop ?now v s) = pre @ alertFrames buf (Suc (Suc ?k))"
      by (simp only: ua gf shw alertFrames.simps append_assoc)
    have "leds (loop ?now v s) = ghostFrame (blink_step s AND 1 \<noteq> 0) (leds s)"
      by (simp add: eq blinkFrame_eq del: of_nat_Suc)
    then have f6: "length (leds (loop ?now v s)) = NUM_LEDS_PER_FACE"
      using len by (simp only: length_ghostFrame)
    show ?thesis
      unfolding alertInv_def d using f1 f2 f3 f4 f5 f6 lenb now by (simp only: simp_thms)
  next
    case False
    then have d: "Suc t div 100 = ?k" by (simp add: div_Suc)
    have "loop ?now v s = s\<lparr>presence := detectPresence MOTION_TH (presence s) v\<rparr>"
      using loop_active[OF act nr nostop] duen False by simp
    then show ?thesis using inv by (simp add: alertInv_def d)
  qed
qed

lemma alertInv_start:
  assumes "\<not> presence s0" "MOTION_TH \<le> v0" "length (leds s0) = NUM_LEDS_PER_FACE"
  shows "alertInv (shown s0) (leds s0) 0 (loop 0 v0 s0)" and "presence (loop 0 v0 s0)"
proof -
  have eq: "loop 0 v0 s0 = blinkFrame 0 (startBlink 0 (s0\<lparr>presence := True\<rparr>))"
    using assms(1,2) by (rule loop_rising)
  show "presence (loop 0 v0 s0)"
    by (simp add: eq blinkFrame_eq startBlink_def)
  show "alertInv (shown s0) (leds s0) 0 (loop 0 v0 s0)"
    using assms(3)
    by (simp add: alertInv_def eq blinkFrame_eq startBlink_def length_ghostFrame
        BLINK_DURATION_MS_def BLINK_PERIOD_MS_def BLINK_STEPS_TOTAL_def)
qed

lemma alertInv_run:
  "alertInv pre buf t s \<Longrightarrow> noRisingEdge (presence s) vs \<Longrightarrow> t + length vs < 3000 \<Longrightarrow>
   alertInv pre buf (t + length vs) (run s (everyMs (Suc t) vs))"
proof (induction vs arbitrary: s t)
  case Nil
  then show ?case by simp
next
  case (Cons v vs)
  from Cons.prems(2) have nr: "\<not> (\<not> presence s \<and> MOTION_TH \<le> v)"
    and rest: "noRisingEdge (detectPresence MOTION_TH (presence s) v) vs"
    by (simp_all add: noRisingEdge_Cons del: noRisingEdge.simps)
  from Cons.prems(3) have t: "Suc t < 3000" and t': "Suc t + length vs < 3000" by simp_all
  have inv: "alertInv pre buf (Suc t) (loop (of_nat (Suc t)) v s)"
    using Cons.prems(1) nr t by (rule alertInv_tick)
  have "alertInv pre buf (Suc t + length vs)
      (run (loop (of_nat (Suc t)) v s) (everyMs (Suc (Suc t)) vs))"
    using inv rest t' by (intro Cons.IH) (simp_all only: presence_loop)
  then show ?case by (simp del: of_nat_Suc)
qed

lemma alert_window:
  assumes "\<not> presence s0" "MOTION_TH \<le> v0" "length (leds s0) = NUM_LEDS_PER_FACE"
    and "noRisingEdge True vs" "length vs < 3000"
  shows "alertInv (shown s0) (leds s0) (length vs) (run s0 (everyMs 0 (v0 # vs)))"
proof -
  have "alertInv (shown s0) (leds s0) (0 + length vs) (run (loop 0 v0 s0) (everyMs (Suc 0) vs))"
    using alertInv_start[OF assms(1-3)] assms(4,5) by (intro alertInv_run) simp_all
  then show ?thesis by simp
qed

lemma map_snd_everyMs: "map snd (everyMs t vs) = vs"
  by (induction vs arbitrary: t) simp_all

lemma everyMs_append: "everyMs t (xs @ ys) = everyMs t xs @ everyMs (t + length xs) ys"
  by (induction xs arbitrary: t) simp_all

lemma run_append: "run s (xs @ ys) = run (run s xs) ys"
  by (induction xs arbitrary: s) auto

lemma noRisingEdge_append:
  "noRisingEdge p (xs @ ys) \<Longrightarrow> noRisingEdge p xs"
  by (induction xs arbitrary: p) simp_all

lemma presence_run_noRising:
  "noRisingEdge (presence s) (map snd ins @ [v]) \<Longrightarrow>
   \<not> (\<not> presence (run s ins) \<and> MOTION_TH \<le> v)"
proof (induction ins arbitrary: s)
  case Nil
  then show ?case by (simp add: noRisingEdge_single del: noRisingEdge.simps)
next
  case (Cons a ins)
  obtain now u where a: "a = (now, u)" by (cases a)
  from Cons.prems have "noRisingEdge (presence (loop now u s)) (map snd ins @ [v])"
    unfolding a by (simp add: presence_loop)
  from Cons.IH[OF this] show ?case
    unfolding a by simp
qed

lemma alert_stops:
  assumes inv: "alertInv pre buf 2999 s" and nr: "\<not> (\<not> presence s \<and> MOTION_TH \<le> v)"
  shows "\<not> blink_active (loop 3000 v s)"
proof -
  from inv have act: "blink_active s" and stop: "blink_stopAt s = 3000"
    by (simp_all add: alertInv_def)
  have "due 3000 (blink_stopAt s)" unfolding stop by (rule due_self)
  from loop_stop[OF act nr this] show ?thesis
    by (simp add: blink_fields_bodyAnimation blink_fields_idleRotate)
qed

lemma noRisingEdge_replicate: "noRisingEdge True (replicate n 100)"
  by (induction n) (simp_all add: detectPresence_def risingEdge_def TH_OFF_MOTION_TH)

lemma shown_bodyStep_prefix: "take (length (shown s)) (shown (bodyStep now s)) = shown s"
  by (simp add: bodyStep_def Let_def renderBodyFrameForFace_eq)

lemma shown_bodyAnimation_prefix:
  "take (length (shown s)) (shown (bodyAnimation now s)) = shown s"
  by (simp add: bodyAnimation_def shown_bodyStep_prefix)

lemma alert_last_frame:
  assumes inv: "alertInv pre buf 2999 s" and nr: "\<not> (\<not> presence s \<and> MOTION_TH \<le> v)"
  shows "take (length pre + 124) (shown (loop 3000 v s)) = pre @ alertFrames buf 31"
proof -
  from inv have act: "blink_active s" and stop: "blink_stopAt s = 3000"
    and nxt: "blink_nextAt s = 3000" and stp: "blink_step s = 12"
    and shw: "shown s = pre @ alertFrames buf 30"
    and len: "length (leds s) = NUM_LEDS_PER_FACE" and lenb: "length buf = NUM_LEDS_PER_FACE"
    by (simp_all add: alertInv_def)
  have d1: "due 3000 (blink_stopAt s)" unfolding stop by (rule due_self)
  have d2: "due 3000 (blink_nextAt s)" unfolding nxt by (rule due_self)
  let ?s' = "idleRotate 3000 ((blinkFrame 3000
      (s\<lparr>presence := detectPresence MOTION_TH (presence s) v\<rparr>))\<lparr>blink_active := False\<rparr>)"
  have eq: "loop 3000 v s = bodyAnimation 3000 ?s'"
    using loop_stop[OF act nr d1] d2 by simp
  have gf: "ghostFrame False (leds s) = ghostFrame False buf"
    using len lenb by (rule ghostFrame_buf)
  have "shown ?s' = shown s @ map (\<lambda>f. (f, ghostFrame False (leds s))) [FRONT, RIGHT, LEFT, BACK]"
    by (simp add: shown_idleRotate blinkFrame_eq stp)
  also have "\<dots> = pre @ alertFrames buf (Suc 30)"
    by (simp only: gf shw alertFrames.simps append_assoc) simp
  finally have sh: "shown ?s' = pre @ alertFrames buf 31" by simp
  then have "length (shown ?s') = length pre + 124"
    by (simp add: length_alertFrames)
  with shown_bodyAnimation_prefix[of ?s' 3000] sh show ?thesis
    unfolding eq by simp
qed

lemma alert_window_no_rising:
  assumes "\<not> presence s0" "MOTION_TH \<le> v0" "length (leds s0) = NUM_LEDS_PER_FACE"
    and "noRisingEdge True (ws @ [v])"
  shows "\<not> (\<not> presence (run s0 (everyMs 0 (v0 # ws))) \<and> MOTION_TH \<le> v)"
proof -
  have p1: "presence (loop 0 v0 s0)"
    using assms(1-3) by (rule alertInv_start(2))
  have "noRisingEdge (presence (loop 0 v0 s0)) (map snd (everyMs (Suc 0) ws) @ [v])"
    using assms(4) p1 by (simp add: map_snd_everyMs)
  then have "\<not> (\<not> presence (run (loop 0 v0 s0) (everyMs (Suc 0) ws)) \<and> MOTION_TH \<le> v)"
    by (rule presence_run_noRising)
  then show ?thesis by simp
qed

subsection \<open>The body schedule\<close>

lemma body_fields_bodyStep:
  "body_stepInPair (bodyStep now s) = body_stepInPair s XOR 1"
  "lastStep (bodyStep now s) = body_stepInPair s XOR 1"
  "body_repsInPair (bodyStep now s) =
     (if body_stepInPair s XOR 1 = 0 \<and> lastStep s = 1
      then (if BODY_REPS_PER_PAIR \<le> unat (body_repsInPair s + 1) then 0
            else body_repsInPair s + 1)
      else body_repsInPair s)"
  "body_pair (bodyStep now s) =
     (if body_stepInPair s XOR 1 = 0 \<and> lastStep s = 1 \<and>
         BODY_REPS_PER_PAIR \<le> unat (body_repsInPair s + 1)
      then body_pair s XOR 1 else body_pair s)"
  "body_nextAt (bodyStep now s) = now + BODY_PERIOD_MS"
  "length (shown (bodyStep now s)) = length (shown s) + 4"
  by (simp_all add: bodyStep_def Let_def renderBodyFrameForFace_eq)

lemma body_fields_idleRotate:
  "body_stepInPair (idleRotate now s) = body_stepInPair s"
  "lastStep (idleRotate now s) = lastStep s"
  "body_repsInPair (idleRotate now s) = body_repsInPair s"
  "body_pair (idleRotate now s) = body_pair s"
  "body_nextAt (idleRotate now s) = body_nextAt s"
  by (simp_all add: idleRotate_def)

lemma div10: "k div 10 = (k div 2) div (5::nat)"
  by (simp add: div_mult2_eq[symmetric])

lemma even_step_arith:
  "even n \<Longrightarrow> Suc n mod 2 = 1 \<and> Suc n div 2 = n div 2"
  by (simp add: div_Suc mod_Suc even_iff_mod_2_eq_zero)

lemma odd_step_arith:
  "odd n \<Longrightarrow> n mod 2 = 1 \<and> Suc n mod 2 = 0 \<and> Suc n div 2 = Suc (n div 2)"
  by (simp add: div_Suc mod_Suc odd_iff_mod_2_eq_one)

lemma flip_arith:
  "m mod 5 = 4 \<Longrightarrow> Suc m div 5 = Suc (m div 5) \<and> Suc m mod 5 = 0"
  by (simp add: div_Suc mod_Suc)

lemma keep_arith:
  "m mod 5 \<noteq> 4 \<Longrightarrow> Suc m div 5 = m div 5 \<and> Suc m mod 5 = Suc (m mod 5)"
  by (simp add: div_Suc mod_Suc)

lemma xor_one_bit: "q < 2 \<Longrightarrow> (of_nat q :: 8 word) XOR 1 = of_nat (Suc q mod 2)"
proof -
  assume "q < 2"
  then have "q = 0 \<or> q = 1" by auto
  then show ?thesis
  proof
    assume "q = 0" then show ?thesis by simp
  next
    assume "q = 1" then show ?thesis by simp
  qed
qed

lemma unat_reps: "r < 5 \<Longrightarrow> unat ((of_nat r :: 8 word) + 1) = Suc r"
proof -
  assume r: "r < 5"
  have e: "(of_nat r :: 8 word) + 1 = of_nat (Suc r)" by simp
  have "unat (of_nat (Suc r) :: 8 word) = Suc r"
    using r by (simp only: unat_of_nat) simp
  then show ?thesis by (simp only: e)
qed

lemma bodyInv_step:
  assumes inv: "bodyInv n s"
  shows "bodyInv (Suc n) (bodyStep now s)"
proof -
  let ?m = "n div 2"
  from inv have stp: "body_stepInPair s = of_nat (n mod 2)"
    and rp: "body_repsInPair s = of_nat (?m mod 5)"
    and pr: "body_pair s = of_nat ((?m div 5) mod 2)"
    and lst: "0 < n \<longrightarrow> lastStep s = body_stepInPair s"
    by (simp_all add: bodyInv_def div10)
  show ?thesis
  proof (cases "even n")
    case True
    note a = even_step_arith[OF True]
    from True stp have st: "body_stepInPair s = 0" by simp
    have f1: "body_stepInPair (bodyStep now s) = 1" and f2: "lastStep (bodyStep now s) = 1"
      and f3: "body_repsInPair (bodyStep now s) = body_repsInPair s"
      and f4: "body_pair (bodyStep now s) = body_pair s"
      by (simp_all add: body_fields_bodyStep st)
    show ?thesis
      unfolding bodyInv_def div10 f1 f2 f3 f4 rp pr using a by simp
  next
    case False
    note a = odd_step_arith[OF False]
    from stp a have st: "body_stepInPair s = 1" by simp
    from False have "0 < n" by (cases n) simp_all
    with lst st have ls: "lastStep s = 1" by simp
    have r: "?m mod 5 < 5" by simp
    have ur: "unat (body_repsInPair s + 1) = Suc (?m mod 5)"
      unfolding rp using r by (rule unat_reps)
    have f1: "body_stepInPair (bodyStep now s) = 0" and f2: "lastStep (bodyStep now s) = 0"
      by (simp_all add: body_fields_bodyStep st)
    have f3: "body_repsInPair (bodyStep now s) =
        (if 5 \<le> Suc (?m mod 5) then 0 else body_repsInPair s + 1)"
      and f4: "body_pair (bodyStep now s) =
        (if 5 \<le> Suc (?m mod 5) then body_pair s XOR 1 else body_pair s)"
      by (simp_all add: body_fields_bodyStep st ls ur BODY_REPS_PER_PAIR_def)
    show ?thesis
    proof (cases "?m mod 5 = 4")
      case True
      note b = flip_arith[OF True]
      have x: "body_pair s XOR 1 = of_nat (Suc (?m div 5) mod 2)"
        unfolding pr by (subst xor_one_bit) (simp_all add: mod_Suc_eq)
      from True have g3: "body_repsInPair (bodyStep now s) = 0"
        and g4: "body_pair (bodyStep now s) = of_nat (Suc (?m div 5) mod 2)"
        unfolding f3 f4 x by simp_all
      show ?thesis
        unfolding bodyInv_def div10 f1 f2 g3 g4 using a b by simp
    next
      case nf: False
      note b = keep_arith[OF nf]
      from r nf have n5: "\<not> 5 \<le> Suc (?m mod 5)" by simp
      have g3: "body_repsInPair (bodyStep now s) = of_nat (Suc (?m mod 5))"
        and g4: "body_pair (bodyStep now s) = of_nat ((?m div 5) mod 2)"
        unfolding f3 f4 rp pr using n5 by simp_all
      show ?thesis
        unfolding bodyInv_def div10 f1 f2 g3 g4 using a b by simp
    qed
  qed
qed

lemma bodyInv_idleRotate: "bodyInv n (idleRotate now s) = bodyInv n s"
  by (simp add: bodyInv_def body_fields_idleRotate)

lemma bodyInv_presence: "bodyInv n (s\<lparr>presence := p\<rparr>) = bodyInv n s"
  by (simp add: bodyInv_def)

lemma idle_tick:
  assumes na: "\<not> blink_active s" and nr: "\<not> (\<not> presence s \<and> MOTION_TH \<le> v)"
  shows "\<not> blink_active (loop now v s)"
    and "body_nextAt (loop now v s) =
      (if due now (body_nextAt s) then now + BODY_PERIOD_MS else body_nextAt s)"
    and "length (shown (loop now v s)) =
      length (shown s) + 4 * (if due now (body_nextAt s) then 1 else 0)"
    and "bodyInv n s \<Longrightarrow> bodyInv (n + (if due now (body_nextAt s) then 1 else 0)) (loop now v s)"
proof -
  let ?s1 = "idleRotate now (s\<lparr>presence := detectPresence MOTION_TH (presence s) v\<rparr>)"
  have eq: "loop now v s = bodyAnimation now ?s1"
    using na nr by (rule loop_idle)
  have nx: "body_nextAt ?s1 = body_nextAt s"
    by (simp add: body_fields_idleRotate)
  show "\<not> blink_active (loop now v s)"
    using na by (simp add: eq blink_fields_bodyAnimation blink_fields_idleRotate)
  show "body_nextAt (loop now v s) =
      (if due now (body_nextAt s) then now + BODY_PERIOD_MS else body_nextAt s)"
    by (simp add: eq bodyAnimation_def nx body_fields_bodyStep)
  show "length (shown (loop now v s)) =
      length (shown s) + 4 * (if due now (body_nextAt s) then 1 else 0)"
    by (simp add: eq bodyAnimation_def nx body_fields_bodyStep shown_idleRotate)
  show "bodyInv (n + (if due now (body_nextAt s) then 1 else 0)) (loop now v s)" if "bodyInv n s"
  proof -
    from that have "bodyInv n ?s1"
      by (simp only: bodyInv_idleRotate bodyInv_presence)
    then show ?thesis
      by (simp add: eq bodyAnimation_def nx bodyInv_step)
  qed
qed

lemma body_run:
  "bodyInv n s \<Longrightarrow> \<not> blink_active s \<Longrightarrow> noRisingEdge (presence s) (map snd ins) \<Longrightarrow>
   bodyInv (n + bodyDueTicks s ins) (run s ins) \<and>
   length (shown (run s ins)) = length (shown s) + 4 * bodyDueTicks s ins"
proof (induction ins arbitrary: s n)
  case Nil
  then show ?case by simp
next
  case (Cons a ins)
  obtain now v where a: "a = (now, v)" by (cases a)
  let ?d = "if due now (body_nextAt s) then 1 else 0 :: nat"
  from Cons.prems(3) have nr: "\<not> (\<not> presence s \<and> MOTION_TH \<le> v)"
    and rest: "noRisingEdge (presence (loop now v s)) (map snd ins)"
    unfolding a by (simp_all add: noRisingEdge_Cons presence_loop del: noRisingEdge.simps)
  note t = idle_tick[OF Cons.prems(2) nr, where now = now]
  from Cons.IH[OF t(4)[OF Cons.prems(1)] t(1) rest] t(3)
  show ?case unfolding a by (simp add: add.assoc)
qed

lemma due_ticks_100:
  "\<not> blink_active s \<Longrightarrow> \<not> presence s \<Longrightarrow> body_nextAt s = of_nat (100 * a) \<Longrightarrow>
   bodyDueTicks s (map (\<lambda>k. (of_nat (100 * k), 0)) [a..<a + n]) = n"
proof (induction n arbitrary: s a)
  case 0
  then show ?case by simp
next
  case (Suc n)
  let ?now = "of_nat (100 * a) :: 32 word"
  have nr: "\<not> (\<not> presence s \<and> MOTION_TH \<le> 0)" by (simp add: MOTION_TH_def)
  note t = idle_tick[OF Suc.prems(1) nr, where now = ?now]
  have d: "due ?now (body_nextAt s)" unfolding Suc.prems(3) by (rule due_self)
  have p: "\<not> presence (loop ?now 0 s)"
    using Suc.prems(2) by (simp add: presence_loop detectPresence_def MOTION_TH_def)
  have "?now + BODY_PERIOD_MS = of_nat (100 * a + 100)"
    by (simp only: BODY_PERIOD_MS_def of_nat_add of_nat_numeral)
  then have nx: "body_nextAt (loop ?now 0 s) = of_nat (100 * Suc a)"
    using t(2) d by simp
  have "[a..<a + Suc n] = a # [Suc a..<Suc a + n]"
    by (simp add: upt_conv_Cons)
  then show ?case
    using Suc.IH[OF t(1) p nx] d by (simp del: upt_Suc of_nat_mult of_nat_Suc)
qed

lemma noRisingEdge_zeros: "noRisingEdge False (map (\<lambda>k. 0) ks)"
  by (induction ks) (simp_all add: detectPresence_def risingEdge_def MOTION_TH_def)

lemma ticks_1000:
  "map (\<lambda>k. (of_nat (100 * k), 0)) [1..<1 + 10] =
     [(100, 0), (200, 0), (300, 0), (400, 0), (500, 0), (600, 0), (700, 0), (800, 0),
      (900, 0), (1000 :: 32 word, 0 :: int)]"
  by (simp add: upt_conv_Cons)

lemma ticks_900:
  "map (\<lambda>k. (of_nat (100 * k), 0)) [1..<1 + 9] =
     [(100, 0), (200, 0), (300, 0), (400, 0), (500, 0), (600, 0), (700, 0), (800, 0),
      (900 :: 32 word, 0 :: int)]"
  by (simp add: upt_conv_Cons)

subsection \<open>The blink fields after one call\<close>

lemma rising_fields:
  assumes "\<not> presence s" "MOTION_TH \<le> v"
  shows "blink_active (loop now v s)" "blink_step (loop now v s) = 1"
    "blink_nextAt (loop now v s) = now + BLINK_PERIOD_MS"
    "blink_stopAt (loop now v s) = now + BLINK_DURATION_MS"
    "presence (loop now v s)"
  by (simp_all add: loop_rising[OF assms] blinkFrame_eq startBlink_def BLINK_STEPS_TOTAL_def)

lemma active_fields:
  assumes "blink_active s" "\<not> (\<not> presence s \<and> MOTION_TH \<le> v)"
  shows "blink_stopAt (loop now v s) = blink_stopAt s"
    "blink_active (loop now v s) \<longleftrightarrow> \<not> due now (blink_stopAt s)"
    "blink_step (loop now v s) =
       (if due now (blink_nextAt s)
        then of_nat ((unat (blink_step s) + 1) mod BLINK_STEPS_TOTAL) else blink_step s)"
    "blink_nextAt (loop now v s) =
       (if due now (blink_nextAt s) then now + BLINK_PERIOD_MS else blink_nextAt s)"
  using assms
  by (cases "due now (blink_stopAt s)";
      simp add: loop_stop loop_active blink_fields_bodyAnimation blink_fields_idleRotate
        blinkFrame_eq)+

section \<open>The claims\<close>

text \<open>
  C8. For every ON threshold of at least 1 that the sketch can be configured with, a value of
  the 16-bit \<^verbatim>\<open>const int TH_ON\<close> and so at most 32767, with the minimum gap 4: the derived
  OFF threshold is \<open>max 0 (on - max 4 (on div 3))\<close>, it is not negative and it is strictly
  below the ON threshold. (C's \<^verbatim>\<open>/\<close> and \<open>div\<close> agree on the non-negative threshold, and
  nothing overflows on this range.)
\<close>

theorem off_threshold_bounds:
  "1 \<le> th_on \<Longrightarrow> th_on \<le> 32767 \<Longrightarrow>
   TH_OFF th_on = max 0 (th_on - max 4 (th_on div 3)) \<and> 0 \<le> TH_OFF th_on \<and> TH_OFF th_on < th_on"
  by (simp add: TH_OFF_def HYST_def signed_divide_int_def sgn_if)

theorem off_threshold_bounds_witness:
  "(1::int) \<le> 100 \<and> (100::int) \<le> 32767 \<and>
   TH_OFF 100 = 67 \<and> 0 \<le> TH_OFF 100 \<and> TH_OFF 100 < 100 \<and>
   (1::int) \<le> 1 \<and> (1::int) \<le> 32767 \<and> TH_OFF 1 = 0 \<and> TH_OFF 1 < 1 \<and>
   (1::int) \<le> 32767 \<and> (32767::int) \<le> 32767 \<and> TH_OFF 32767 = 21845 \<and> TH_OFF 32767 < 32767"
  using off_threshold_bounds[of 100] off_threshold_bounds[of 1] off_threshold_bounds[of 32767]
  by simp

text \<open>
  C10. One rotation of the assignment Red, Magenta, Orange, Cyan of the faces FRONT, RIGHT,
  BACK, LEFT gives Cyan, Red, Magenta, Orange; for any four colors, each face takes the color
  its cyclic predecessor held, a circular shift by one position.
\<close>

theorem rotateColors_circular_shift:
  "rotateColors [Red, Magenta, Orange, Cyan] = [Cyan, Red, Magenta, Orange] \<and>
   rotateColors [c0, c1, c2, c3] = [c3, c0, c1, c2]"
  by (simp add: rotateColors_def FACES_def numeral_3_eq_3)

text \<open>
  C7. Let \<open>T\<close> and \<open>D\<close> be the current time and a deadline in unbounded logical time, less
  than \<open>2 ^ 31\<close> apart. On their 32-bit clock values the test \<^verbatim>\<open>(int32_t)(now - deadline) >= 0\<close>
  holds exactly when \<open>T\<close> is at or past \<open>D\<close>. The instances below take a deadline at the
  largest clock value, just before and just after the clock wraps to zero.
\<close>

theorem due_signed_difference:
  fixes T D :: int
  assumes "\<bar>T - D\<bar> < 2 ^ 31"
  shows "due (word_of_int T) (word_of_int D) \<longleftrightarrow> D \<le> T"
  using sint_diff_small[OF assms] by (simp add: due_def)

theorem due_signed_difference_witness:
  "\<bar>4294967290 - 4294967295\<bar> < (2::int) ^ 31 \<and> \<not> due (word_of_int 4294967290) (word_of_int 4294967295) \<and>
   \<bar>4294967300 - 4294967295\<bar> < (2::int) ^ 31 \<and> due (word_of_int 4294967300) (word_of_int 4294967295) \<and>
   word_of_int 4294967300 = (4 :: 32 word)"
  using due_signed_difference[of 4294967290 4294967295]
    due_signed_difference[of 4294967300 4294967295]
  by simp

text \<open>
  C5. For every reading and previous level, the detector goes to present exactly when it was
  absent and the reading is at least the ON threshold, goes to absent exactly when it was
  present and the reading is at most the OFF threshold, and holds the level otherwise; this
  is the level that \<^verbatim>\<open>loop\<close> stores. Hence a rising edge is reported if and only if the
  level was absent and the reading is at least the ON threshold, and in every sequence of
  readings two rising edges have a falling edge between them.
\<close>

theorem detectPresence_hysteresis:
  "(risingEdge p (detectPresence th_on p v) \<longleftrightarrow> \<not> p \<and> th_on \<le> v) \<and>
   (fallingEdge p (detectPresence th_on p v) \<longleftrightarrow> p \<and> v \<le> TH_OFF th_on) \<and>
   (\<not> (\<not> p \<and> th_on \<le> v) \<and> \<not> (p \<and> v \<le> TH_OFF th_on) \<longrightarrow> detectPresence th_on p v = p) \<and>
   presence (loop now v s) = detectPresence MOTION_TH (presence s) v \<and>
   (\<forall>i j. i < j \<and> j < length vs \<and>
      risingEdge ((p # presences th_on p vs) ! i) (presences th_on p vs ! i) \<and>
      risingEdge ((p # presences th_on p vs) ! j) (presences th_on p vs ! j) \<longrightarrow>
      (\<exists>k. i < k \<and> k < j \<and>
         fallingEdge ((p # presences th_on p vs) ! k) (presences th_on p vs ! k)))"
proof (intro conjI allI impI)
  show "risingEdge p (detectPresence th_on p v) \<longleftrightarrow> \<not> p \<and> th_on \<le> v"
    by (auto simp: risingEdge_def detectPresence_def)
  show "fallingEdge p (detectPresence th_on p v) \<longleftrightarrow> p \<and> v \<le> TH_OFF th_on"
    by (auto simp: fallingEdge_def detectPresence_def)
  show "detectPresence th_on p v = p"
    if "\<not> (\<not> p \<and> th_on \<le> v) \<and> \<not> (p \<and> v \<le> TH_OFF th_on)"
    using that by (auto simp: detectPresence_def)
  show "presence (loop now v s) = detectPresence MOTION_TH (presence s) v"
    by (rule presence_loop)
next
  fix i j
  let ?ps = "presences th_on p vs"
  assume h: "i < j \<and> j < length vs \<and> risingEdge ((p # ?ps) ! i) (?ps ! i) \<and>
      risingEdge ((p # ?ps) ! j) (?ps ! j)"
  then have up: "(p # ?ps) ! Suc i" and down: "\<not> (p # ?ps) ! j"
    by (simp_all add: risingEdge_def)
  from h have "Suc i \<le> j" "j \<le> length vs" by simp_all
  from fall_between[OF this up down]
  obtain k where "Suc i \<le> k" "k < j" "(p # ?ps) ! k" "\<not> ?ps ! k" by blast
  then have "i < k \<and> k < j \<and> fallingEdge ((p # ?ps) ! k) (?ps ! k)"
    by (simp add: fallingEdge_def)
  then show "\<exists>k. i < k \<and> k < j \<and> fallingEdge ((p # ?ps) ! k) (?ps ! k)" ..
qed

theorem detectPresence_hysteresis_witness:
  "presences 100 False [100, 0, 100] = [True, False, True] \<and>
   risingEdge False (detectPresence 100 False 100) \<and>
   fallingEdge True (detectPresence 100 True 67) \<and>
   detectPresence 100 True 68 = True \<and>
   (\<exists>k. 0 < k \<and> k < 2 \<and>
      fallingEdge ((False # presences 100 False [100, 0, 100]) ! k) (presences 100 False [100, 0, 100] ! k))"
proof -
  note inst = detectPresence_hysteresis[where th_on = 100 and vs = "[100, 0, 100]"]
  note off = TH_OFF_100
  have ps: "presences 100 False [100, 0, 100] = [True, False, True]"
    by (simp add: detectPresence_def off)
  have r: "risingEdge False (detectPresence 100 False 100)"
    using inst[where p = False and v = 100, THEN conjunct1] by simp
  have f: "fallingEdge True (detectPresence 100 True 67)"
    using inst[where p = True and v = 67, THEN conjunct2, THEN conjunct1] by (simp add: off)
  have h: "detectPresence 100 True 68 = True"
    using inst[where p = True and v = 68, THEN conjunct2, THEN conjunct2, THEN conjunct1] by (simp add: off)
  have "(0::nat) < 2 \<and> 2 < length [100, 0, 100 :: int] \<and>
      risingEdge ((False # presences 100 False [100, 0, 100]) ! 0) (presences 100 False [100, 0, 100] ! 0) \<and>
      risingEdge ((False # presences 100 False [100, 0, 100]) ! 2) (presences 100 False [100, 0, 100] ! 2)"
    unfolding ps by (simp add: risingEdge_def)
  with inst[where p = False, THEN conjunct2, THEN conjunct2, THEN conjunct2, THEN conjunct2]
  have "\<exists>k. 0 < k \<and> k < 2 \<and>
      fallingEdge ((False # presences 100 False [100, 0, 100]) ! k) (presences 100 False [100, 0, 100] ! k)"
    by blast
  with ps r f h show ?thesis by blast
qed

text \<open>
  C2, as stated: with the ON threshold 100 the readings 50, 100, 80, 67, 66 from an absent
  level would give the levels absent, present, present, present, absent. The sketch drops
  the level at the reading 67 already, which is at most the OFF threshold 67.
\<close>

theorem debouncer_scenario_counterexample:
  "presences MOTION_TH False [50, 100, 80, 67, 66] \<noteq> [False, True, True, True, False]"
  by (simp add: detectPresence_def MOTION_TH_def TH_OFF_100)

text \<open>
  C2, amended. With the ON threshold 100 and the minimum gap 4 the OFF threshold is 67, and
  the readings 50, 100, 80, 67, 66 from an absent level give the levels absent, present,
  present, absent, absent: a rising edge exactly at the second reading and a falling edge
  exactly at the fourth.
\<close>

theorem debouncer_scenario:
  "TH_OFF MOTION_TH = 67 \<and>
   presences MOTION_TH False [50, 100, 80, 67, 66] = [False, True, True, False, False] \<and>
   map2 risingEdge (False # presences MOTION_TH False [50, 100, 80, 67, 66])
     (presences MOTION_TH False [50, 100, 80, 67, 66]) = [False, True, False, False, False] \<and>
   map2 fallingEdge (False # presences MOTION_TH False [50, 100, 80, 67, 66])
     (presences MOTION_TH False [50, 100, 80, 67, 66]) = [False, False, False, True, False]"
proof -
  have ps: "presences MOTION_TH False [50, 100, 80, 67, 66] = [False, True, True, False, False]"
    by (simp add: detectPresence_def MOTION_TH_def TH_OFF_100)
  show ?thesis
    unfolding ps by (simp add: TH_OFF_MOTION_TH risingEdge_def fallingEdge_def)
qed

text \<open>
  C6. Drawing a frame over the 256-pixel buffer, whatever it held, leaves 256 pixels; each
  pixel holds the color of the last of the three index tables that lists it, and black when
  none does; table entries of 256 or more change nothing.
\<close>

theorem drawFrame_overwrite_last_wins:
  assumes "length buf = NUM_LEDS_PER_FACE"
  shows "length (drawFrame A cA B cB C cC buf) = 256 \<and>
   (\<forall>i<256. drawFrame A cA B cB C cC buf ! i =
      (if i \<in> unat ` set C then cC
       else if i \<in> unat ` set B then cB
       else if i \<in> unat ` set A then cA
       else Black)) \<and>
   ((\<forall>k \<in> set A \<union> set B \<union> set C. 256 \<le> unat k) \<longrightarrow>
      drawFrame A cA B cB C cC buf = replicate 256 Black)"
  using assms
  by (simp add: drawFrame_def length_colorList nth_colorList colorList_skip fill_solid_def
      NUM_LEDS_PER_FACE_def)

theorem drawFrame_overwrite_last_wins_witness:
  "length (replicate 256 Red) = NUM_LEDS_PER_FACE \<and>
   drawFrame [3, 300, 7] Blue [3] White [9] Red (replicate 256 Red) ! 3 = White \<and>
   drawFrame [3, 300, 7] Blue [3] White [9] Red (replicate 256 Red) ! 7 = Blue \<and>
   drawFrame [3, 300, 7] Blue [3] White [9] Red (replicate 256 Red) ! 8 = Black \<and>
   drawFrame [300] Blue [256] White [] Red (replicate 256 Red) = replicate 256 Black"
proof -
  have len: "length (replicate 256 Red) = NUM_LEDS_PER_FACE"
    by (simp add: NUM_LEDS_PER_FACE_def)
  note a = drawFrame_overwrite_last_wins[OF len, of "[3, 300, 7]" Blue "[3]" White "[9]" Red]
  note b = drawFrame_overwrite_last_wins[OF len, of "[300]" Blue "[256]" White "[]" Red]
  from a have px: "\<forall>i<256. drawFrame [3, 300, 7] Blue [3] White [9] Red (replicate 256 Red) ! i =
      (if i \<in> unat ` set [9 :: 16 word] then Red
       else if i \<in> unat ` set [3 :: 16 word] then White
       else if i \<in> unat ` set [3, 300, 7 :: 16 word] then Blue
       else Black)" by blast
  have p3: "drawFrame [3, 300, 7] Blue [3] White [9] Red (replicate 256 Red) ! 3 = White"
    using px[rule_format, of 3] by simp
  have p7: "drawFrame [3, 300, 7] Blue [3] White [9] Red (replicate 256 Red) ! 7 = Blue"
    using px[rule_format, of 7] by simp
  have p8: "drawFrame [3, 300, 7] Blue [3] White [9] Red (replicate 256 Red) ! 8 = Black"
    using px[rule_format, of 8] by simp
  have sk: "drawFrame [300] Blue [256] White [] Red (replicate 256 Red) = replicate 256 Black"
    using b by simp
  from len p3 p7 p8 sk show ?thesis by blast
qed

text \<open>
  C4, amended. Every ghost frame is pushed to the faces in the order FRONT, RIGHT, LEFT, BACK
  and every body frame in the order RIGHT, LEFT, BACK, FRONT; one call of \<^verbatim>\<open>loop\<close> pushes
  nothing, one ghost frame, one body frame, or a ghost frame and then a body frame.
\<close>

theorem publish_order:
  "map fst (shown (renderBlinkFrameAllFaces useAlt s)) = map fst (shown s) @ [FRONT, RIGHT, LEFT, BACK] \<and>
   map fst (shown (bodyStep now s)) = map fst (shown s) @ [RIGHT, LEFT, BACK, FRONT] \<and>
   (map fst (shown (loop now v s)) = map fst (shown s) \<or>
    map fst (shown (loop now v s)) = map fst (shown s) @ [FRONT, RIGHT, LEFT, BACK] \<or>
    map fst (shown (loop now v s)) = map fst (shown s) @ [RIGHT, LEFT, BACK, FRONT] \<or>
    map fst (shown (loop now v s)) =
      map fst (shown s) @ [FRONT, RIGHT, LEFT, BACK] @ [RIGHT, LEFT, BACK, FRONT])"
  using faces_loop[of now v s] by (simp add: renderBlinkFrameAllFaces_eq faces_bodyStep)

text \<open>
  C4, as stated, has the ghost frame pushed in the order FRONT, RIGHT, BACK, LEFT. The first
  call after the start-up, with a reading of 100, pushes one to FRONT, RIGHT, LEFT, BACK.
\<close>

theorem publish_order_counterexample:
  "map fst (shown (loop 0 100 (sketch_setup 0))) = [FRONT, RIGHT, LEFT, BACK] \<and>
   map fst (shown (loop 0 100 (sketch_setup 0))) \<noteq> [FRONT, RIGHT, BACK, LEFT]"
proof -
  have "loop 0 100 (sketch_setup 0) = blinkFrame 0 (startBlink 0 ((sketch_setup 0)\<lparr>presence := True\<rparr>))"
    by (rule loop_rising) (simp_all add: sketch_setup_def MOTION_TH_def)
  then have "map fst (shown (loop 0 100 (sketch_setup 0))) = [FRONT, RIGHT, LEFT, BACK]"
    by (simp add: faces_blinkFrame startBlink_def sketch_setup_def)
  then show ?thesis by simp
qed

text \<open>
  C3, as stated, has 30 ghost frames with the steps 0 to 29. After the start-up, a reading of
  100 at clock 0 and the loop called every millisecond with the same reading: the ghost frame
  due at clock 1800, the nineteenth, is drawn with step 0, since the step wraps at 18; and the
  call at clock 3000 pushes a thirty-first ghost frame before it ends the blink.
\<close>

theorem alert_run_counterexample:
  "blink_nextAt (run (sketch_setup 0) (everyMs 0 (100 # replicate 1799 100))) = 1800 \<and>
   blink_step (run (sketch_setup 0) (everyMs 0 (100 # replicate 1799 100))) = 0 \<and>
   take 124 (shown (run (sketch_setup 0) (everyMs 0 (100 # replicate 3000 100)))) =
     alertFrames (leds (sketch_setup 0)) 31"
proof -
  have p0: "\<not> presence (sketch_setup 0)" and l0: "length (leds (sketch_setup 0)) = NUM_LEDS_PER_FACE"
    and sh0: "shown (sketch_setup 0) = []"
    by (simp_all add: sketch_setup_def)
  have m0: "MOTION_TH \<le> 100" by (simp add: MOTION_TH_def)
  have "alertInv (shown (sketch_setup 0)) (leds (sketch_setup 0)) (length (replicate 1799 (100::int)))
      (run (sketch_setup 0) (everyMs 0 (100 # replicate 1799 100)))"
    using p0 m0 l0 noRisingEdge_replicate by (rule alert_window) simp
  then have a: "blink_nextAt (run (sketch_setup 0) (everyMs 0 (100 # replicate 1799 100))) = 1800"
    and b: "blink_step (run (sketch_setup 0) (everyMs 0 (100 # replicate 1799 100))) = 0"
    by (simp_all add: alertInv_def)
  let ?s = "run (sketch_setup 0) (everyMs 0 (100 # replicate 2999 100))"
  have "alertInv (shown (sketch_setup 0)) (leds (sketch_setup 0)) (length (replicate 2999 (100::int))) ?s"
    using p0 m0 l0 noRisingEdge_replicate by (rule alert_window) simp
  then have inv: "alertInv [] (leds (sketch_setup 0)) 2999 ?s"
    by (simp add: sh0)
  have r: "replicate 3000 (100::int) = replicate 2999 100 @ [100]"
    using replicate_add[of 2999 1 "100::int"] by simp
  have "noRisingEdge True (replicate 2999 100 @ [100])"
    using noRisingEdge_replicate[of 3000] by (simp only: r)
  with p0 m0 l0 have nr: "\<not> (\<not> presence ?s \<and> MOTION_TH \<le> 100)"
    by (rule alert_window_no_rising)
  have "take (length ([] :: (Face \<times> CRGB list) list) + 124) (shown (loop 3000 100 ?s)) =
      [] @ alertFrames (leds (sketch_setup 0)) 31"
    using inv nr by (rule alert_last_frame)
  moreover from r have "run (sketch_setup 0) (everyMs 0 (100 # replicate 3000 100)) = loop 3000 100 ?s"
    by (simp add: everyMs_append run_append)
  ultimately have c: "take 124 (shown (run (sketch_setup 0) (everyMs 0 (100 # replicate 3000 100)))) =
     alertFrames (leds (sketch_setup 0)) 31" by simp
  from a b c show ?thesis by blast
qed

text \<open>
  C3, amended. A rising edge at clock 0, then the loop called every millisecond with readings
  that give no further rising edge. The blink is active after the call at clock \<open>t\<close> exactly
  when \<open>t < 3000\<close>. Up to there, the stop time is 3000, the next frame is due at the next
  multiple of 100, the calls so far have pushed exactly \<open>t div 100 + 1\<close> ghost frames and
  nothing else (30 of them by clock 2999), frame \<open>j\<close> being the alternate one when \<open>j\<close> is
  odd (the two frames differ), and the step counter is the number of frames modulo 18. The
  call at clock 3000 ends the blink whatever its reading.
\<close>

theorem alert_run:
  assumes "\<not> presence s0" and "length (leds s0) = NUM_LEDS_PER_FACE" and "MOTION_TH \<le> v0"
    and "noRisingEdge True vs" and "length vs \<le> 3000"
  shows "(blink_active (run s0 (everyMs 0 (v0 # vs))) \<longleftrightarrow> length vs < 3000) \<and>
    (length vs < 3000 \<longrightarrow>
       blink_stopAt (run s0 (everyMs 0 (v0 # vs))) = 3000 \<and>
       blink_nextAt (run s0 (everyMs 0 (v0 # vs))) = of_nat (100 * (length vs div 100 + 1)) \<and>
       blink_step (run s0 (everyMs 0 (v0 # vs))) = of_nat ((length vs div 100 + 1) mod 18) \<and>
       shown (run s0 (everyMs 0 (v0 # vs))) =
         shown s0 @ alertFrames (leds s0) (length vs div 100 + 1)) \<and>
    ghostFrame False (leds s0) \<noteq> ghostFrame True (leds s0)"
proof (cases "length vs < 3000")
  case True
  from alert_window[OF assms(1,3,2,4) True] True ghostFrames_differ(3)[OF assms(2)]
  show ?thesis
    by (simp add: alertInv_def)
next
  case False
  with assms(5) have len: "length vs = 3000" by simp
  then obtain ws v where vs: "vs = ws @ [v]" and lws: "length ws = 2999"
    by (cases vs rule: rev_cases) simp_all
  let ?s = "run s0 (everyMs 0 (v0 # ws))"
  have nrw: "noRisingEdge True ws"
    using assms(4) unfolding vs by (rule noRisingEdge_append)
  have inv: "alertInv (shown s0) (leds s0) 2999 ?s"
    using alert_window[OF assms(1,3,2) nrw] lws by simp
  have nr: "\<not> (\<not> presence ?s \<and> MOTION_TH \<le> v)"
    using assms(1,3,2,4) unfolding vs by (rule alert_window_no_rising)
  have "run s0 (everyMs 0 (v0 # vs)) = loop 3000 v ?s"
    unfolding vs using lws by (simp add: everyMs_append run_append)
  with alert_stops[OF inv nr] len ghostFrames_differ(3)[OF assms(2)] show ?thesis by simp
qed


theorem alert_run_witness:
  "\<not> presence (sketch_setup 0) \<and> length (leds (sketch_setup 0)) = NUM_LEDS_PER_FACE \<and>
   MOTION_TH \<le> 100 \<and> noRisingEdge True (replicate 2999 100) \<and>
   length (replicate 2999 (100::int)) \<le> 3000 \<and>
   blink_active (run (sketch_setup 0) (everyMs 0 (100 # replicate 2999 100))) \<and>
   blink_step (run (sketch_setup 0) (everyMs 0 (100 # replicate 2999 100))) = 12 \<and>
   shown (run (sketch_setup 0) (everyMs 0 (100 # replicate 2999 100))) =
     alertFrames (leds (sketch_setup 0)) 30 \<and>
   \<not> blink_active (run (sketch_setup 0) (everyMs 0 (100 # replicate 3000 100)))"
proof -
  have p0: "\<not> presence (sketch_setup 0)" and l0: "length (leds (sketch_setup 0)) = NUM_LEDS_PER_FACE"
    and sh0: "shown (sketch_setup 0) = []"
    by (simp_all add: sketch_setup_def)
  have m0: "MOTION_TH \<le> 100" by (simp add: MOTION_TH_def)
  have n1: "noRisingEdge True (replicate 2999 100)" and n2: "noRisingEdge True (replicate 3000 100)"
    by (rule noRisingEdge_replicate)+
  have k1: "length (replicate 2999 (100::int)) \<le> 3000" and k2: "length (replicate 3000 (100::int)) \<le> 3000"
    by simp_all
  from alert_run[OF p0 l0 m0 n1 k1]
  have a: "blink_active (run (sketch_setup 0) (everyMs 0 (100 # replicate 2999 100)))"
    and b: "blink_step (run (sketch_setup 0) (everyMs 0 (100 # replicate 2999 100))) = 12"
    and c: "shown (run (sketch_setup 0) (everyMs 0 (100 # replicate 2999 100))) =
     alertFrames (leds (sketch_setup 0)) 30"
    by (simp_all add: sh0)
  from alert_run[OF p0 l0 m0 n2 k2]
  have d: "\<not> blink_active (run (sketch_setup 0) (everyMs 0 (100 # replicate 3000 100)))"
    by simp
  from p0 l0 m0 n1 k1 a b c d show ?thesis by blast
qed

text \<open>
  C9. From pair 0, step 0 and no repetitions, with no blink active and no rising edge in the
  run: while fewer than 10 calls have found the body deadline reached the pair is 0, and when
  exactly 10 have, five round trips of the step, the pair is 1 with step and repetitions back
  at 0. Each such call, and no other, pushes one body frame to the four faces.
\<close>

theorem body_pair_flip:
  assumes "body_pair s0 = 0" and "body_stepInPair s0 = 0" and "body_repsInPair s0 = 0"
    and "\<not> blink_active s0" and "noRisingEdge (presence s0) (map snd ins)"
  shows "(bodyDueTicks s0 ins < 10 \<longrightarrow> body_pair (run s0 ins) = 0) \<and>
    (bodyDueTicks s0 ins = 10 \<longrightarrow>
       body_pair (run s0 ins) = 1 \<and> body_stepInPair (run s0 ins) = 0 \<and>
       body_repsInPair (run s0 ins) = 0) \<and>
    length (shown (run s0 ins)) = length (shown s0) + 4 * bodyDueTicks s0 ins"
proof -
  have "bodyInv 0 s0"
    using assms(1-3) by (simp add: bodyInv_def)
  from body_run[OF this assms(4,5)]
  have inv: "bodyInv (bodyDueTicks s0 ins) (run s0 ins)"
    and len: "length (shown (run s0 ins)) = length (shown s0) + 4 * bodyDueTicks s0 ins"
    by simp_all
  from inv have "bodyDueTicks s0 ins < 10 \<longrightarrow> body_pair (run s0 ins) = 0"
    by (simp add: bodyInv_def)
  moreover from inv have "bodyDueTicks s0 ins = 10 \<longrightarrow>
       body_pair (run s0 ins) = 1 \<and> body_stepInPair (run s0 ins) = 0 \<and>
       body_repsInPair (run s0 ins) = 0"
    by (auto simp add: bodyInv_def)
  ultimately show ?thesis using len by blast
qed


theorem body_pair_flip_witness:
  "body_pair (sketch_setup 0) = 0 \<and> body_stepInPair (sketch_setup 0) = 0 \<and>
   body_repsInPair (sketch_setup 0) = 0 \<and> \<not> blink_active (sketch_setup 0) \<and>
   noRisingEdge (presence (sketch_setup 0)) (map snd
     [(100, 0), (200, 0), (300, 0), (400, 0), (500, 0), (600, 0), (700, 0), (800, 0),
      (900, 0), (1000 :: 32 word, 0 :: int)]) \<and>
   bodyDueTicks (sketch_setup 0)
     [(100, 0), (200, 0), (300, 0), (400, 0), (500, 0), (600, 0), (700, 0), (800, 0),
      (900, 0)] = 9 \<and>
   body_pair (run (sketch_setup 0)
     [(100, 0), (200, 0), (300, 0), (400, 0), (500, 0), (600, 0), (700, 0), (800, 0),
      (900, 0)]) = 0 \<and>
   bodyDueTicks (sketch_setup 0)
     [(100, 0), (200, 0), (300, 0), (400, 0), (500, 0), (600, 0), (700, 0), (800, 0),
      (900, 0), (1000, 0)] = 10 \<and>
   body_pair (run (sketch_setup 0)
     [(100, 0), (200, 0), (300, 0), (400, 0), (500, 0), (600, 0), (700, 0), (800, 0),
      (900, 0), (1000, 0)]) = 1"
proof -
  let ?f = "\<lambda>k. (of_nat (100 * k) :: 32 word, 0 :: int)"
  have b: "body_pair (sketch_setup 0) = 0" "body_stepInPair (sketch_setup 0) = 0"
    "body_repsInPair (sketch_setup 0) = 0"
    and na: "\<not> blink_active (sketch_setup 0)" and np: "\<not> presence (sketch_setup 0)"
    and nx: "body_nextAt (sketch_setup 0) = of_nat (100 * 1)"
    by (simp_all add: sketch_setup_def BODY_PERIOD_MS_def)
  have nr: "noRisingEdge (presence (sketch_setup 0)) (map snd (map ?f ks))" for ks
    using noRisingEdge_zeros[of ks] np by (simp add: comp_def)
  have d9: "bodyDueTicks (sketch_setup 0) (map ?f [1..<1 + 9]) = 9"
    and d10: "bodyDueTicks (sketch_setup 0) (map ?f [1..<1 + 10]) = 10"
    using na np nx by (rule due_ticks_100)+
  from body_pair_flip[OF b na nr, of "[1..<1 + 9]"] d9
  have p9: "body_pair (run (sketch_setup 0) (map ?f [1..<1 + 9])) = 0" by simp
  from body_pair_flip[OF b na nr, of "[1..<1 + 10]"] d10
  have p10: "body_pair (run (sketch_setup 0) (map ?f [1..<1 + 10])) = 1" by simp
  from b na nr[of "[1..<1 + 10]"] d9 p9 d10 p10 show ?thesis
    unfolding ticks_900 ticks_1000 by blast
qed

text \<open>
  C1, amended. Every rising edge starts the blink afresh, also while one is active: the step
  counter restarts (it is 1 after the frame drawn in the same call) and the stop time becomes
  \<open>now + 3000\<close>. In a call without a rising edge an active blink keeps its stop time, its
  step counter moves only by the frame that is due, and the blink ends in that call exactly
  when the clock has reached the stop time, whatever the reading.
\<close>

theorem alert_retrigger:
  "(risingEdge (presence s) (presence (loop now v s)) \<longrightarrow>
      blink_active (loop now v s) \<and> blink_step (loop now v s) = 1 \<and>
      blink_nextAt (loop now v s) = now + BLINK_PERIOD_MS \<and>
      blink_stopAt (loop now v s) = now + BLINK_DURATION_MS) \<and>
   (blink_active s \<and> \<not> risingEdge (presence s) (presence (loop now v s)) \<longrightarrow>
      blink_stopAt (loop now v s) = blink_stopAt s \<and>
      (blink_active (loop now v s) \<longleftrightarrow> \<not> due now (blink_stopAt s)) \<and>
      blink_step (loop now v s) =
        (if due now (blink_nextAt s)
         then of_nat ((unat (blink_step s) + 1) mod BLINK_STEPS_TOTAL) else blink_step s))"
proof -
  have r: "risingEdge (presence s) (presence (loop now v s)) \<longleftrightarrow> \<not> presence s \<and> MOTION_TH \<le> v"
    by (auto simp: presence_loop risingEdge_def detectPresence_def)
  show ?thesis
    unfolding r using rising_fields[of s v now] active_fields[of s v now] by blast
qed

theorem alert_retrigger_witness:
  "risingEdge (presence (sketch_setup 0)) (presence (loop 0 100 (sketch_setup 0))) \<and>
   blink_active (loop 0 100 (sketch_setup 0)) \<and>
   blink_stopAt (loop 0 100 (sketch_setup 0)) = 3000 \<and>
   \<not> risingEdge (presence (loop 0 100 (sketch_setup 0)))
       (presence (loop 3000 1023 (loop 0 100 (sketch_setup 0)))) \<and>
   blink_stopAt (loop 3000 1023 (loop 0 100 (sketch_setup 0))) = 3000 \<and>
   \<not> blink_active (loop 3000 1023 (loop 0 100 (sketch_setup 0)))"
proof -
  let ?s1 = "loop 0 100 (sketch_setup 0)"
  have np: "\<not> presence (sketch_setup 0)" by (simp add: sketch_setup_def)
  have p1: "presence ?s1"
    using np by (simp add: presence_loop detectPresence_def MOTION_TH_def)
  have r0: "risingEdge (presence (sketch_setup 0)) (presence ?s1)"
    using np p1 by (simp add: risingEdge_def)
  from alert_retrigger[of "sketch_setup 0" 0 100, THEN conjunct1] r0
  have a1: "blink_active ?s1" and st1: "blink_stopAt ?s1 = 3000"
    by (simp_all add: BLINK_DURATION_MS_def)
  have r1: "\<not> risingEdge (presence ?s1) (presence (loop 3000 1023 ?s1))"
    using p1 by (simp add: risingEdge_def)
  from alert_retrigger[of ?s1 3000 1023, THEN conjunct2] a1 r1
  have "blink_stopAt (loop 3000 1023 ?s1) = 3000 \<and> \<not> blink_active (loop 3000 1023 ?s1)"
    by (simp add: st1 due_self)
  with r0 a1 st1 r1 show ?thesis by blast
qed

text \<open>
  C1, as stated, has a rising edge during an active blink leave the step counter and the stop
  time alone. After the start-up, a reading of 100 at clock 0 starts a blink that stops at
  3000; a reading of 0 at clock 500 drops the presence; the reading of 100 at clock 1000 is a
  rising edge inside the blink, and it takes the step counter from 2 back to 1 and the stop
  time from 3000 to 4000.
\<close>

theorem alert_retrigger_counterexample:
  "blink_active (run (sketch_setup 0) [(0, 100), (500, 0)]) \<and>
   blink_step (run (sketch_setup 0) [(0, 100), (500, 0)]) = 2 \<and>
   blink_stopAt (run (sketch_setup 0) [(0, 100), (500, 0)]) = 3000 \<and>
   risingEdge (presence (run (sketch_setup 0) [(0, 100), (500, 0)]))
     (presence (loop 1000 100 (run (sketch_setup 0) [(0, 100), (500, 0)]))) \<and>
   blink_step (loop 1000 100 (run (sketch_setup 0) [(0, 100), (500, 0)])) = 1 \<and>
   blink_stopAt (loop 1000 100 (run (sketch_setup 0) [(0, 100), (500, 0)])) = 4000"
proof -
  let ?s1 = "loop 0 100 (sketch_setup 0)"
  let ?s2 = "loop 500 0 ?s1"
  have np: "\<not> presence (sketch_setup 0)" by (simp add: sketch_setup_def)
  have m: "MOTION_TH \<le> 100" by (simp add: MOTION_TH_def)
  note f1 = rising_fields[OF np m, of 0]
  have nr1: "\<not> (\<not> presence ?s1 \<and> MOTION_TH \<le> 0)" using f1(5) by simp
  note f2 = active_fields[OF f1(1) nr1, of 500]
  have d1: "\<not> due 500 (blink_stopAt ?s1)" and d2: "due 500 (blink_nextAt ?s1)"
    by (simp_all add: f1 due_def BLINK_DURATION_MS_def BLINK_PERIOD_MS_def)
  have a2: "blink_active ?s2" and st2: "blink_stopAt ?s2 = 3000" and sp2: "blink_step ?s2 = 2"
    using f2 d1 d2 by (simp_all add: f1 BLINK_DURATION_MS_def BLINK_STEPS_TOTAL_def)
  have p2: "\<not> presence ?s2"
    using f1(5) by (simp add: presence_loop[of 500] detectPresence_def TH_OFF_MOTION_TH)
  note f3 = rising_fields[OF p2 m, of 1000]
  have r: "risingEdge (presence ?s2) (presence (loop 1000 100 ?s2))"
    using p2 f3(5) by (simp add: risingEdge_def)
  have "blink_step (loop 1000 100 ?s2) = 1" "blink_stopAt (loop 1000 100 ?s2) = 4000"
    using f3 by (simp_all add: BLINK_DURATION_MS_def)
  with a2 st2 sp2 r show ?thesis by simp
qed

end
